theory Spec2Isabelle
  imports Complex_Main
begin

section \<open>Errors\<close>

text \<open>
  The exceptions of the JavaScript source are values.  \<open>TypeError\<close> is what the
  engine raises when a property of \<open>undefined\<close> is read (an array read out of range
  followed by a field access); \<open>InvalidProfileType\<close> is
  \<^verbatim>\<open>new Error('Invalid profile type')\<close> of \<^verbatim>\<open>loadProfileFile\<close>.
  A handler that throws in the middle of a loop keeps the writes it has made, so the
  functions below return the error next to the state reached.
\<close>

datatype error = TypeError | InvalidProfileType

section \<open>Mixer channels\<close>

text \<open>
  \<^verbatim>\<open>class AudioChannelControl\<close>: the field \<^verbatim>\<open>id\<close> is called
  \<open>channelId\<close> (the name of the constructor's argument).  Numbers are modelled as
  reals wherever the source only stores, compares or copies them.
\<close>

record AudioChannelControl =
  channelId :: int
  gain :: real
  muted :: bool
  solo :: bool

text \<open>
  \<^verbatim>\<open>Array.prototype.find\<close> returns the first element that satisfies the predicate.
  The source then compares channels with \<^verbatim>\<open>!==\<close>, that is by object identity;
  the elements of \<^verbatim>\<open>mixerChannels\<close> are pairwise distinct objects (each one is built
  by \<^verbatim>\<open>new AudioChannelControl\<close>), so the identity of an element is its position.
\<close>

fun findIndex :: "('a \<Rightarrow> bool) \<Rightarrow> 'a list \<Rightarrow> nat option" where
  "findIndex P [] = None"
| "findIndex P (x # xs) = (if P x then Some 0 else map_option Suc (findIndex P xs))"

text \<open>
  The value written for the channel at position \<open>i\<close> in the body of the
  \<^verbatim>\<open>forEach\<close> of \<^verbatim>\<open>updateMixerNodes\<close>.
\<close>

definition gainFor :: "nat option \<Rightarrow> nat \<Rightarrow> AudioChannelControl \<Rightarrow> real" where
  "gainFor soloChannel i channel =
     (if soloChannel \<noteq> None \<and> Some i \<noteq> soloChannel \<and> channelId channel \<noteq> 6 then 0
      else if muted channel then 0 else gain channel)"

text \<open>
  \<^verbatim>\<open>this.channelGains[channel.id].gain.value = ...\<close>: the gain nodes are the list of
  their current values, addressed by the channel's id.  Outside the list the read gives
  \<^verbatim>\<open>undefined\<close> and the field access throws; the writes already made stay.
\<close>

fun pushGains ::
  "nat option \<Rightarrow> nat \<Rightarrow> AudioChannelControl list \<Rightarrow> real list \<Rightarrow> error option \<times> real list" where
  "pushGains soloChannel i [] channelGains = (None, channelGains)"
| "pushGains soloChannel i (channel # rest) channelGains =
     (if 0 \<le> channelId channel \<and> nat (channelId channel) < length channelGains
      then pushGains soloChannel (Suc i) rest
             (channelGains[nat (channelId channel) := gainFor soloChannel i channel])
      else (Some TypeError, channelGains))"

definition updateMixerNodes ::
  "real list option \<Rightarrow> AudioChannelControl list option \<Rightarrow> error option \<times> real list option" where
  "updateMixerNodes channelGains mixerChannels =
     (case (channelGains, mixerChannels) of
        (Some g, Some channels) \<Rightarrow>
          (case pushGains (findIndex solo channels) 0 channels g of
             (e, g') \<Rightarrow> (e, Some g'))
      | _ \<Rightarrow> (None, channelGains))"

text \<open>
  The rule of the specification, in its words: with \<open>soloed\<close> the set of the channels
  marked solo, a channel other than the master gets 0 when \<open>soloed\<close> is not empty and
  the channel is not in it, and its own mute/gain resolution otherwise.
\<close>

definition resolveEffectiveGain_spec ::
  "AudioChannelControl list \<Rightarrow> nat \<Rightarrow> real" where
  "resolveEffectiveGain_spec channels i =
     (let c = channels ! i; soloed = filter (\<lambda>j. solo (channels ! j)) [0..<length channels]
      in if channelId c \<noteq> 6 \<and> soloed \<noteq> [] \<and> i \<notin> set soloed then 0
         else if muted c then 0 else gain c)"

subsection \<open>The solo button\<close>

text \<open>
  The \<^verbatim>\<open>forEach\<close> of the solo button's click handler in \<^verbatim>\<open>createMixerChannel\<close>:
  for every channel of the profile it reads \<^verbatim>\<open>this.mixerChannelElements[channel.id]\<close>,
  sets \<^verbatim>\<open>channel.solo = false\<close> and then touches the element's solo button.  With
  \<open>n\<close> mixer elements, an id outside \<open>0..<n\<close> gives \<^verbatim>\<open>undefined\<close> and the access
  to its button throws after the flag of that channel has been cleared; the channels after
  it are not visited.
\<close>

fun clearSolo :: "nat \<Rightarrow> AudioChannelControl list \<Rightarrow> error option \<times> AudioChannelControl list" where
  "clearSolo n [] = (None, [])"
| "clearSolo n (channel # rest) =
     (if 0 \<le> channelId channel \<and> nat (channelId channel) < n
      then (case clearSolo n rest of (e, rest') \<Rightarrow> (e, channel\<lparr>solo := False\<rparr> # rest'))
      else (Some TypeError, channel\<lparr>solo := False\<rparr> # rest))"

text \<open>
  The flags after a click on the solo button of the channel at position \<open>k\<close>: when the
  channel is not soloed the flags of all channels are cleared first; then
  \<^verbatim>\<open>channel.solo = !channel.solo\<close>.  An exception of the loop leaves the handler
  before that assignment.
\<close>

definition toggleSolo ::
  "nat \<Rightarrow> nat \<Rightarrow> AudioChannelControl list \<Rightarrow> error option \<times> AudioChannelControl list" where
  "toggleSolo n k channels =
     (if \<not> solo (channels ! k)
      then (case clearSolo n channels of
              (Some e, channels') \<Rightarrow> (Some e, channels')
            | (None, channels') \<Rightarrow>
                (None, channels'[k := (channels' ! k)\<lparr>solo := \<not> solo (channels' ! k)\<rparr>]))
      else (None, channels[k := (channels ! k)\<lparr>solo := \<not> solo (channels ! k)\<rparr>]))"

text \<open>
  The whole handler: the flags, then \<^verbatim>\<open>this.updateMixerNodes()\<close>.  The result is the
  error (if any), the channels and the values of the gain nodes.
\<close>

definition soloButtonClick ::
  "nat \<Rightarrow> real list option \<Rightarrow> nat \<Rightarrow> AudioChannelControl list
     \<Rightarrow> error option \<times> AudioChannelControl list \<times> real list option" where
  "soloButtonClick n channelGains k channels =
     (case toggleSolo n k channels of
        (Some e, channels') \<Rightarrow> (Some e, channels', channelGains)
      | (None, channels') \<Rightarrow>
          (case updateMixerNodes channelGains (Some channels') of
             (e, g') \<Rightarrow> (e, channels', g')))"

subsection \<open>Refreshing the mixer\<close>

text \<open>
  \<^verbatim>\<open>new AudioChannelControl(channelId, gain, muted, solo)\<close>; \<^verbatim>\<open>parseInt\<close> and
  \<^verbatim>\<open>parseFloat\<close> leave a number as it is.
\<close>

definition newAudioChannelControl :: "int \<Rightarrow> real \<Rightarrow> bool \<Rightarrow> bool \<Rightarrow> AudioChannelControl" where
  "newAudioChannelControl i g m s = \<lparr>channelId = i, gain = g, muted = m, solo = s\<rparr>"

text \<open>
  \<^verbatim>\<open>for (let i = mixerChannels.length; i < 7; i++) mixerChannels.push(new AudioChannelControl(i, 1, false, false))\<close>
\<close>

function addChannels :: "nat \<Rightarrow> AudioChannelControl list \<Rightarrow> AudioChannelControl list" where
  "addChannels i mixerChannels =
     (if i < 7
      then addChannels (Suc i) (mixerChannels @ [newAudioChannelControl (int i) 1 False False])
      else mixerChannels)"
  by pat_completeness auto
termination
  by (relation "measure (\<lambda>(i, mixerChannels). 7 - i)") auto

declare addChannels.simps [simp del]

text \<open>
  \<^verbatim>\<open>refreshMixer\<close>: without a current profile nothing happens after the element list
  has been emptied.  Otherwise the channels are padded, seven mixer elements are created
  (for the positions 0 to 5 and for position 6) and the gains are pushed.  The result is
  the error (if any), the channels of the current profile, the number of mixer elements
  and the values of the gain nodes.
\<close>

definition refreshMixer ::
  "real list option \<Rightarrow> AudioChannelControl list option
     \<Rightarrow> error option \<times> AudioChannelControl list option \<times> nat \<times> real list option" where
  "refreshMixer channelGains currentChannels =
     (case currentChannels of
        None \<Rightarrow> (None, None, 0, channelGains)
      | Some mixerChannels \<Rightarrow>
          (let padded = (if length mixerChannels < 7
                         then addChannels (length mixerChannels) mixerChannels
                         else mixerChannels)
           in case updateMixerNodes channelGains (Some padded) of
                (e, g') \<Rightarrow> (e, Some padded, 7, g')))"

text \<open>The positions of the channels whose solo flag is set.\<close>

definition soloedPositions :: "AudioChannelControl list \<Rightarrow> nat list" where
  "soloedPositions channels = filter (\<lambda>j. solo (channels ! j)) [0..<length channels]"

section \<open>Peak meter\<close>

text \<open>
  The meter state of one channel is kept on its mixer element: \<^verbatim>\<open>els.peak\<close> and
  \<^verbatim>\<open>els.peakTime\<close>, both \<^verbatim>\<open>undefined\<close> (\<open>None\<close>) until the first tick.
  Heights are counts of rectangles and times are the milliseconds of \<^verbatim>\<open>Date.now()\<close>.
\<close>

record meter =
  peak :: "int option"
  peakTime :: "int option"

text \<open>
  The numbers of the source are IEEE 754 doubles: the result of a multiplication or a
  division is the exact result rounded to 53 significant bits, a tie going to the even
  neighbour.  \<open>roundToDouble\<close> is that rounding with an unbounded exponent (the levels
  and canvas sizes of a meter are far from the overflow and the subnormal range).
\<close>

definition roundHalfEven :: "real \<Rightarrow> int" where
  "roundHalfEven y =
     (let f = \<lfloor>y\<rfloor>
      in if y - of_int f < 1 / 2 then f
         else if 1 / 2 < y - of_int f then f + 1
         else if even f then f else f + 1)"

definition roundToDouble :: "real \<Rightarrow> real" where
  "roundToDouble x =
     (if x = 0 then 0
      else (let e = \<lfloor>log 2 \<bar>x\<bar>\<rfloor>
            in of_int (roundHalfEven (x * 2 powr of_int (52 - e))) * 2 powr of_int (e - 52)))"

text \<open>
  \<^verbatim>\<open>Math.ceil(volHeight / rectHeight)\<close> with \<^verbatim>\<open>volHeight = volume * height\<close> and
  \<^verbatim>\<open>rectHeight = height / 50\<close>, each operation rounded.
\<close>

definition rectCountOf :: "real \<Rightarrow> real \<Rightarrow> int" where
  "rectCountOf volume height =
     \<lceil>roundToDouble (roundToDouble (volume * height) / roundToDouble (height / 50))\<rceil>"

text \<open>
  The part of the loop body of \<^verbatim>\<open>renderMixerMeters\<close> that follows
  \<^verbatim>\<open>const now = Date.now()\<close>.  \<^verbatim>\<open>!els.peak\<close> holds for \<^verbatim>\<open>undefined\<close> and for 0;
  a comparison with \<^verbatim>\<open>undefined\<close> is false.  The result is the new meter state and
  the opacity (\<^verbatim>\<open>freshness\<close>) of the peak line when it is drawn.
\<close>

definition peakStep :: "meter \<Rightarrow> int \<Rightarrow> int \<Rightarrow> meter \<times> real option" where
  "peakStep els rectCount now =
     (let els1 = (if peak els = None \<or> peak els = Some 0
                     \<or> (case peak els of Some p \<Rightarrow> rectCount > p | None \<Rightarrow> False)
                  then els\<lparr>peak := Some rectCount, peakTime := Some now\<rparr>
                  else els)
      in case (peakTime els1, peak els1) of
           (Some t, Some p) \<Rightarrow>
             (let timeDiff = now - t
              in if timeDiff < 1000 \<and> p \<ge> 1
                 then (els1, Some (if timeDiff < 650 then 1
                                   else 1 - (real_of_int (timeDiff - 650) / 350)))
                 else (els1\<lparr>peak := Some 0, peakTime := Some now\<rparr>, None))
         | _ \<Rightarrow> (els1\<lparr>peak := Some 0, peakTime := Some now\<rparr>, None))"

text \<open>
  The body of the \<^verbatim>\<open>forEach\<close> of \<^verbatim>\<open>renderMixerMeters\<close> for one channel.
  \<open>analyzer\<close> is the level that \<^verbatim>\<open>getVolume\<close> reads from the analyser of the channel
  and \<open>els\<close> the meter state on its mixer element, each \<open>None\<close> when
  \<^verbatim>\<open>this.channelAnalyzers[channel.id]\<close> or \<^verbatim>\<open>this.mixerChannelElements[channel.id]\<close>
  is missing; \<open>width\<close> and \<open>height\<close> are the size of the canvas in device pixels.  The
  body returns at once, with the element untouched and nothing drawn, without analyser
  or element and for a canvas without width or height.
\<close>

definition renderMixerMeter ::
  "real option \<Rightarrow> meter option \<Rightarrow> real \<Rightarrow> real \<Rightarrow> int \<Rightarrow> meter option \<times> real option" where
  "renderMixerMeter analyzer els width height now =
     (case (analyzer, els) of
        (Some volume, Some el) \<Rightarrow>
          (if width = 0 \<or> height = 0 then (els, None)
           else (case peakStep el (rectCountOf volume height) now of
                   (el', freshness) \<Rightarrow> (Some el', freshness)))
      | _ \<Rightarrow> (els, None))"
section \<open>Profiles and the profile store\<close>

text \<open>
  \<^verbatim>\<open>class AudioEQNode\<close>; the fields \<^verbatim>\<open>type\<close> and \<^verbatim>\<open>gain\<close> are called
  \<open>nodeType\<close> and \<open>nodeGain\<close>.
\<close>

record AudioEQNode =
  nodeType :: string
  frequency :: real
  nodeGain :: real
  q :: real

text \<open>
  The plain object built by \<^verbatim>\<open>AudioProfile.toObj\<close>, stored as JSON and read by
  \<^verbatim>\<open>AudioProfile.fromObj\<close>.  It holds numbers, strings and booleans only, so it is a
  value.  The id is absent (\<open>None\<close>) in a profile of an import file; \<^verbatim>\<open>parseInt\<close>
  then gives \<^verbatim>\<open>NaN\<close>, which is equal to no id.
\<close>

record profileObj =
  objId :: "int option"
  objLabel :: string
  objEqualizerNodes :: "AudioEQNode list"
  objMixerChannels :: "AudioChannelControl list"

text \<open>
  Profiles, their two arrays, the nodes and the channels are mutable objects with an
  identity.  The heap is the list of all objects created so far; a reference is a position
  in it and \<^verbatim>\<open>new\<close> appends.
\<close>

type_synonym ref = nat

datatype cell =
    ProfileCell "int option" string ref ref
  | ArrayCell "ref list"
  | NodeCell AudioEQNode
  | ChannelCell AudioChannelControl

type_synonym heap = "cell list"

definition lookup :: "heap \<Rightarrow> ref \<Rightarrow> cell option" where
  "lookup h r = (if r < length h then Some (h ! r) else None)"

definition alloc :: "cell \<Rightarrow> heap \<Rightarrow> ref \<times> heap" where
  "alloc c h = (length h, h @ [c])"

fun allocAll :: "cell list \<Rightarrow> heap \<Rightarrow> ref list \<times> heap" where
  "allocAll [] h = ([], h)"
| "allocAll (c # cs) h =
     (case alloc c h of (r, h1) \<Rightarrow> (case allocAll cs h1 of (rs, h2) \<Rightarrow> (r # rs, h2)))"

definition nodeAt :: "heap \<Rightarrow> ref \<Rightarrow> AudioEQNode option" where
  "nodeAt h r = (case lookup h r of Some (NodeCell node) \<Rightarrow> Some node | _ \<Rightarrow> None)"

definition channelAt :: "heap \<Rightarrow> ref \<Rightarrow> AudioChannelControl option" where
  "channelAt h r = (case lookup h r of Some (ChannelCell channel) \<Rightarrow> Some channel | _ \<Rightarrow> None)"

definition arrayAt :: "heap \<Rightarrow> ref \<Rightarrow> ref list option" where
  "arrayAt h r = (case lookup h r of Some (ArrayCell rs) \<Rightarrow> Some rs | _ \<Rightarrow> None)"

text \<open>
  \<^verbatim>\<open>AudioProfile.toObj\<close> reads the profile, maps \<^verbatim>\<open>toObj\<close> over its two arrays and
  builds a new plain object.  The result is \<open>None\<close> where a reference does not lead to an
  object of the expected class (the source would throw).
\<close>

definition toObj :: "heap \<Rightarrow> ref \<Rightarrow> profileObj option" where
  "toObj h p =
     (case lookup h p of
        Some (ProfileCell i l ns cs) \<Rightarrow>
          (case (arrayAt h ns, arrayAt h cs) of
             (Some nrefs, Some crefs) \<Rightarrow>
               (case (those (map (nodeAt h) nrefs), those (map (channelAt h) crefs)) of
                  (Some nodes, Some channels) \<Rightarrow>
                    Some \<lparr>objId = i, objLabel = l,
                          objEqualizerNodes = nodes, objMixerChannels = channels\<rparr>
                | _ \<Rightarrow> None)
           | _ \<Rightarrow> None)
      | _ \<Rightarrow> None)"

text \<open>
  \<^verbatim>\<open>AudioProfile.fromObj\<close> builds a new profile with a new node for every node object,
  a new channel for every channel object and two new arrays.
\<close>

definition fromObj :: "profileObj \<Rightarrow> heap \<Rightarrow> ref \<times> heap" where
  "fromObj obj h =
     (case allocAll (map NodeCell (objEqualizerNodes obj)) h of (nrefs, h1) \<Rightarrow>
      case alloc (ArrayCell nrefs) h1 of (ns, h2) \<Rightarrow>
      case allocAll (map ChannelCell (objMixerChannels obj)) h2 of (crefs, h3) \<Rightarrow>
      case alloc (ArrayCell crefs) h3 of (cs, h4) \<Rightarrow>
        alloc (ProfileCell (objId obj) (objLabel obj) ns cs) h4)"

text \<open>\<^verbatim>\<open>copy() { return AudioProfile.fromObj(this.toObj()); }\<close>\<close>

definition copy :: "heap \<Rightarrow> ref \<Rightarrow> (ref \<times> heap) option" where
  "copy h p = (case toObj h p of Some obj \<Rightarrow> Some (fromObj obj h) | None \<Rightarrow> None)"

text \<open>
  The part of \<^verbatim>\<open>AudioConfigManager\<close> that holds profiles: the heap, the array
  \<^verbatim>\<open>this.profiles\<close> (the store) and \<^verbatim>\<open>this.currentProfile\<close>.
\<close>

record manager =
  heap :: heap
  profiles :: "ref list"
  currentProfile :: "ref option"

definition profileId :: "heap \<Rightarrow> ref \<Rightarrow> int option" where
  "profileId h p = (case lookup h p of Some (ProfileCell i l ns cs) \<Rightarrow> i | _ \<Rightarrow> None)"

definition profileLabel :: "heap \<Rightarrow> ref \<Rightarrow> string option" where
  "profileLabel h p = (case lookup h p of Some (ProfileCell i l ns cs) \<Rightarrow> Some l | _ \<Rightarrow> None)"

text \<open>
  \<^verbatim>\<open>getNextProfileID\<close>: the least id from 1 on that no stored profile has.  The loop
  ends because each round passes one of the finitely many stored ids.
\<close>

function nextFreeId :: "int option list \<Rightarrow> int \<Rightarrow> int" where
  "nextFreeId ids i = (if Some i \<in> set ids then nextFreeId ids (i + 1) else i)"
  by pat_completeness auto
termination
proof (relation "measure (\<lambda>(ids, i). card {j. i \<le> j \<and> Some j \<in> set ids})")
  show "wf (measure (\<lambda>(ids, i). card {j. i \<le> j \<and> Some j \<in> set ids}))"
    by simp
next
  fix ids :: "int option list" and i :: int
  assume mem: "Some i \<in> set ids"
  have fin: "finite {j. i \<le> j \<and> Some j \<in> set ids}"
  proof (rule finite_subset)
    show "{j. i \<le> j \<and> Some j \<in> set ids} \<subseteq> the ` set ids" by force
    show "finite (the ` set ids)" by simp
  qed
  have "i \<in> {j. i \<le> j \<and> Some j \<in> set ids}" "i \<notin> {j. i + 1 \<le> j \<and> Some j \<in> set ids}"
    using mem by simp_all
  moreover have "{j. i + 1 \<le> j \<and> Some j \<in> set ids} \<subseteq> {j. i \<le> j \<and> Some j \<in> set ids}"
    by auto
  ultimately have "{j. i + 1 \<le> j \<and> Some j \<in> set ids} \<subset> {j. i \<le> j \<and> Some j \<in> set ids}"
    by blast
  then have "card {j. i + 1 \<le> j \<and> Some j \<in> set ids} < card {j. i \<le> j \<and> Some j \<in> set ids}"
    using fin by (rule psubset_card_mono [rotated])
  then show "((ids, i + 1), (ids, i)) \<in> measure (\<lambda>(ids, i). card {j. i \<le> j \<and> Some j \<in> set ids})"
    by simp
qed

declare nextFreeId.simps [simp del]

definition getNextProfileID :: "manager \<Rightarrow> int" where
  "getNextProfileID m = nextFreeId (map (profileId (heap m)) (profiles m)) 1"

text \<open>The decimal digits of an id, for the label \<^verbatim>\<open>`Profile ${id}`\<close>.\<close>

function digits :: "nat \<Rightarrow> string" where
  "digits n = (if n < 10 then [''0123456789'' ! n] else digits (n div 10) @ [''0123456789'' ! (n mod 10)])"
  by pat_completeness auto
termination
  by (relation "measure (\<lambda>n. n)") auto

declare digits.simps [simp del]

definition showInt :: "int \<Rightarrow> string" where
  "showInt i = (if i < 0 then CHR ''-'' # digits (nat (- i)) else digits (nat i))"

text \<open>
  \<^verbatim>\<open>new AudioProfile(id)\<close>: two empty arrays and the label \<^verbatim>\<open>`Profile ${id}`\<close>.
\<close>

definition newAudioProfile :: "int \<Rightarrow> heap \<Rightarrow> ref \<times> heap" where
  "newAudioProfile i h =
     (case alloc (ArrayCell []) h of (ns, h1) \<Rightarrow>
      case alloc (ArrayCell []) h1 of (cs, h2) \<Rightarrow>
        alloc (ProfileCell (Some i) (''Profile '' @ showInt i) ns cs) h2)"

text \<open>
  \<^verbatim>\<open>addProfile\<close> pushes the profile; rebuilding the dropdown and scheduling the write
  to storage do not touch the manager's profiles.
\<close>

definition addProfile :: "ref \<Rightarrow> manager \<Rightarrow> manager" where
  "addProfile profile m = m\<lparr>profiles := profiles m @ [profile]\<rparr>"

text \<open>
  \<^verbatim>\<open>newProfile\<close>.  Its last statement clicks the dropdown entry of the new profile.
  The dropdown is built by \<^verbatim>\<open>WebUtils.createDropdown\<close>, which is not among the
  sources: it is taken to hold an entry for every stored profile, as
  \<^verbatim>\<open>updateProfileDropdown\<close> passes them, and a click to select the entry and to call
  the callback, which acts on the entries \<^verbatim>\<open>create\<close> and \<^verbatim>\<open>import\<close> only.
\<close>

definition newProfile :: "manager \<Rightarrow> manager" where
  "newProfile m =
     (case newAudioProfile (getNextProfileID m) (heap m) of
        (profile, h') \<Rightarrow> addProfile profile (m\<lparr>heap := h'\<rparr>))"

text \<open>
  An import document: the \<^verbatim>\<open>type\<close> tag (\<open>None\<close> when it is absent or not a string)
  and the profiles.
\<close>

record profileFile =
  fileType :: "string option"
  fileProfiles :: "profileObj list"

text \<open>
  The body of the \<^verbatim>\<open>forEach\<close> of \<^verbatim>\<open>loadProfileFile\<close>; \<open>today\<close> is
  \<^verbatim>\<open>(new Date()).toDateString()\<close>.
\<close>

definition loadProfile :: "string \<Rightarrow> profileObj \<Rightarrow> manager \<Rightarrow> manager" where
  "loadProfile today profileObj m =
     (let newId = getNextProfileID m;
          label = (if Some (objLabel profileObj) \<in> set (map (profileLabel (heap m)) (profiles m))
                   then objLabel profileObj @ '' (loaded from file on '' @ today @ '')''
                   else objLabel profileObj)
      in case fromObj (profileObj\<lparr>objId := Some newId, objLabel := label\<rparr>) (heap m) of
           (profile, h') \<Rightarrow> m\<lparr>heap := h', profiles := profiles m @ [profile]\<rparr>)"

definition loadProfileFile :: "string \<Rightarrow> profileFile \<Rightarrow> manager \<Rightarrow> error option \<times> manager" where
  "loadProfileFile today obj m =
     (if fileType obj \<noteq> Some ''audioProfile'' then (Some InvalidProfileType, m)
      else (None, foldl (\<lambda>m' profileObj. loadProfile today profileObj m') m (fileProfiles obj)))"

text \<open>
  The caller of \<^verbatim>\<open>loadProfileFile\<close> (the \<^verbatim>\<open>onload\<close> handler of the file reader)
  catches every exception and shows an alert; the manager is what the call left.
\<close>

definition importFile :: "string \<Rightarrow> profileFile \<Rightarrow> manager \<Rightarrow> bool \<times> manager" where
  "importFile today obj m =
     (case loadProfileFile today obj m of
        (Some e, m') \<Rightarrow> (True, m')
      | (None, m') \<Rightarrow> (False, m'))"

text \<open>\<^verbatim>\<open>Array.prototype.indexOf\<close>, with \<open>None\<close> for \<open>-1\<close>.\<close>

fun indexOf :: "'a list \<Rightarrow> 'a \<Rightarrow> nat option" where
  "indexOf [] x = None"
| "indexOf (y # ys) x = (if y = x then Some 0 else map_option Suc (indexOf ys x))"

text \<open>
  \<^verbatim>\<open>deleteProfile\<close>.  After the removal the entry of the profile at position
  \<^verbatim>\<open>Math.max(0, index - 1)\<close> is selected; reading the id of a profile that is not there
  would throw.
\<close>

definition deleteProfile :: "ref \<Rightarrow> manager \<Rightarrow> error option \<times> manager" where
  "deleteProfile profile m =
     (let index = indexOf (profiles m) profile;
          m1 = (case index of
                  Some i \<Rightarrow> m\<lparr>profiles := take i (profiles m) @ drop (Suc i) (profiles m)\<rparr>
                | None \<Rightarrow> m);
          m2 = (if length (profiles m1) = 0 then newProfile m1 else m1);
          selected = (case index of Some i \<Rightarrow> i - 1 | None \<Rightarrow> 0)
      in if selected < length (profiles m2) then (None, m2) else (Some TypeError, m2))"

text \<open>\<^verbatim>\<open>setCurrentProfile(profile) { this.currentProfile = profile.copy(); ... }\<close>\<close>

definition setCurrentProfile :: "ref \<Rightarrow> manager \<Rightarrow> error option \<times> manager" where
  "setCurrentProfile profile m =
     (case copy (heap m) profile of
        Some (c, h') \<Rightarrow> (None, m\<lparr>heap := h', currentProfile := Some c\<rparr>)
      | None \<Rightarrow> (Some TypeError, m))"

section \<open>Gain curve\<close>

text \<open>
  The functions of this section compute with JavaScript numbers.  They are modelled in
  exact real arithmetic: \<^verbatim>\<open>Math.log10\<close> is \<open>log 10\<close>, \<^verbatim>\<open>Math.log\<close> is \<open>ln\<close>,
  \<^verbatim>\<open>Math.pow(10, y)\<close> is \<open>10 powr y\<close>, \<^verbatim>\<open>Math.sign\<close> is \<open>sgn\<close>; rounding is not
  modelled.  Results that are not finite are values of the type \<open>number\<close>.
\<close>

datatype number = NaN | MinusInfinity | Num real

text \<open>
  Modelled from the spec: \<^verbatim>\<open>Utils.clamp(value, min, max)\<close> (\<^verbatim>\<open>Utils.mjs\<close> is not among
  the sources); the specification writes \<open>clamp(x, lo, hi)\<close> for the value limited to the
  range from \<open>lo\<close> to \<open>hi\<close>.
\<close>

definition clamp :: "real \<Rightarrow> real \<Rightarrow> real \<Rightarrow> real" where
  "clamp v lo hi = min (max v lo) hi"

definition symmetricalLogScaleY :: "real \<Rightarrow> real \<Rightarrow> real" where
  "symmetricalLogScaleY x c = sgn x * (log 10 (\<bar>x / c\<bar> + 1))"

definition symmetricalLogScaleX :: "real \<Rightarrow> real \<Rightarrow> real" where
  "symmetricalLogScaleX y c = sgn y * c * (10 powr \<bar>y\<bar> - 1)"

definition mixerDBToPositionRatio :: "real \<Rightarrow> real" where
  "mixerDBToPositionRatio db =
     (if db \<le> - 50 then 1
      else let c = 40 / ln 10;
               maxY = symmetricalLogScaleY 10 c;
               minY = symmetricalLogScaleY (- 50) c;
               y = symmetricalLogScaleY db c
           in clamp ((maxY - y) / (maxY - minY)) 0 1)"

definition mixerPositionRatioToDB :: "real \<Rightarrow> number" where
  "mixerPositionRatioToDB ratio =
     (if ratio \<ge> 1 then MinusInfinity
      else let c = 40 / ln 10;
               maxY = symmetricalLogScaleY 10 c;
               minY = symmetricalLogScaleY (- 50) c;
               y = maxY - ratio * (maxY - minY)
           in Num (clamp (symmetricalLogScaleX y c) (- 50) 10))"

section \<open>Frequency response of the equalizer\<close>

text \<open>
  Arithmetic on \<open>number\<close> as far as \<^verbatim>\<open>renderEqualizerResponse\<close> needs it:
  \<^verbatim>\<open>Math.log10\<close> of a magnitude (\<open>-Infinity\<close> at 0, \<open>NaN\<close> below 0), the product
  with 20 and the sum.
\<close>

definition log10js :: "real \<Rightarrow> number" where
  "log10js x = (if x < 0 then NaN else if x = 0 then MinusInfinity else Num (log 10 x))"

fun times20 :: "number \<Rightarrow> number" where
  "times20 NaN = NaN"
| "times20 MinusInfinity = MinusInfinity"
| "times20 (Num r) = Num (20 * r)"

fun addNumber :: "number \<Rightarrow> number \<Rightarrow> number" where
  "addNumber NaN y = NaN"
| "addNumber x NaN = NaN"
| "addNumber MinusInfinity y = MinusInfinity"
| "addNumber x MinusInfinity = MinusInfinity"
| "addNumber (Num a) (Num b) = Num (a + b)"

text \<open>
  \<^verbatim>\<open>for (let i = 0; i < bufferLength; i++) frequencyArray[i] = Math.min(Math.pow(10, i * step + Math.log10(20)), maxFreq)\<close>
\<close>

function fillFrequencies :: "real \<Rightarrow> real \<Rightarrow> nat \<Rightarrow> nat \<Rightarrow> real list \<Rightarrow> real list" where
  "fillFrequencies step maxFreq i bufferLength frequencyArray =
     (if i < bufferLength
      then fillFrequencies step maxFreq (Suc i) bufferLength
             (frequencyArray[i := min (10 powr (real i * step + log 10 20)) maxFreq])
      else frequencyArray)"
  by pat_completeness auto
termination
  by (relation "measure (\<lambda>(step, maxFreq, i, bufferLength, frequencyArray). bufferLength - i)") auto

declare fillFrequencies.simps [simp del]

text \<open>
  \<^verbatim>\<open>for (let i = 0; i < bufferLength; i++) dbResponse[i] += 20 * Math.log10(currentMagResponse[i])\<close>
\<close>

function addResponse :: "real list \<Rightarrow> nat \<Rightarrow> nat \<Rightarrow> number list \<Rightarrow> number list" where
  "addResponse currentMagResponse i bufferLength dbResponse =
     (if i < bufferLength
      then addResponse currentMagResponse (Suc i) bufferLength
             (dbResponse[i := addNumber (dbResponse ! i) (times20 (log10js (currentMagResponse ! i)))])
      else dbResponse)"
  by pat_completeness auto
termination
  by (relation "measure (\<lambda>(currentMagResponse, i, bufferLength, dbResponse). bufferLength - i)") auto

declare addResponse.simps [simp del]

text \<open>
  A filter stage is given by its linear magnitude at each frequency, which is what the
  audio node's \<^verbatim>\<open>getFrequencyResponse\<close> writes into \<^verbatim>\<open>currentMagResponse\<close>.
\<close>

definition getFrequencyResponse :: "(real \<Rightarrow> real) \<Rightarrow> real list \<Rightarrow> real list" where
  "getFrequencyResponse node frequencyArray = map node frequencyArray"

text \<open>\<^verbatim>\<open>this.equalizerNodes.forEach((node) => { ... })\<close>\<close>

fun forEachNode :: "(real \<Rightarrow> real) list \<Rightarrow> real list \<Rightarrow> nat \<Rightarrow> number list \<Rightarrow> number list" where
  "forEachNode [] frequencyArray bufferLength dbResponse = dbResponse"
| "forEachNode (node # nodes) frequencyArray bufferLength dbResponse =
     forEachNode nodes frequencyArray bufferLength
       (addResponse (getFrequencyResponse node frequencyArray) 0 bufferLength dbResponse)"

text \<open>
  The computation of \<^verbatim>\<open>renderEqualizerResponse\<close> from the sample rate, the buffer
  length (the width of the canvas) and the filter chain: the sampled frequencies and
  \<^verbatim>\<open>this.equalizerDbResponse\<close>.  The typed arrays start filled with 0.
\<close>

definition equalizerDbResponse ::
  "real \<Rightarrow> nat \<Rightarrow> (real \<Rightarrow> real) list \<Rightarrow> real list \<times> number list" where
  "equalizerDbResponse sampleRate bufferLength equalizerNodes =
     (let maxFreq = sampleRate / 2;
          step = log 10 (maxFreq / 20) / real bufferLength;
          frequencyArray = fillFrequencies step maxFreq 0 bufferLength (replicate bufferLength 0);
          dbResponse = forEachNode equalizerNodes frequencyArray bufferLength
                         (replicate bufferLength (Num 0))
      in (frequencyArray, dbResponse))"

text \<open>
  \<^verbatim>\<open>renderEqualizerResponse\<close> returns at once without the two analysers or when the
  equalizer element has no width or no height; the canvas width is the integer part of
  \<^verbatim>\<open>clientWidth * window.devicePixelRatio\<close>.
\<close>

definition renderEqualizerResponse ::
  "bool \<Rightarrow> nat \<Rightarrow> nat \<Rightarrow> real \<Rightarrow> real \<Rightarrow> (real \<Rightarrow> real) list \<Rightarrow> (real list \<times> number list) option" where
  "renderEqualizerResponse analysers clientWidth clientHeight devicePixelRatio sampleRate equalizerNodes =
     (if \<not> analysers then None
      else if clientWidth = 0 \<or> clientHeight = 0 then None
      else Some (equalizerDbResponse sampleRate
                   (nat \<lfloor>real clientWidth * devicePixelRatio\<rfloor>) equalizerNodes))"

section \<open>Editing the current profile\<close>

text \<open>
  The handlers of the equalizer change the current profile through
  \<^verbatim>\<open>this.currentProfile.equalizerNodes\<close>, read when the event is handled.  Reading a
  field of \<^verbatim>\<open>undefined\<close> throws.
\<close>

definition currentArrays :: "manager \<Rightarrow> (ref \<times> ref) option" where
  "currentArrays m =
     (case currentProfile m of
        None \<Rightarrow> None
      | Some c \<Rightarrow>
          (case lookup (heap m) c of
             Some (ProfileCell i l ns cs) \<Rightarrow> Some (ns, cs)
           | _ \<Rightarrow> None))"

text \<open>\<^verbatim>\<open>this.currentProfile.equalizerNodes\<close>: the array and its elements.\<close>

definition currentEqualizerNodes :: "manager \<Rightarrow> (ref \<times> ref list) option" where
  "currentEqualizerNodes m =
     (case currentArrays m of
        None \<Rightarrow> None
      | Some (ns, cs) \<Rightarrow>
          (case arrayAt (heap m) ns of Some nrefs \<Rightarrow> Some (ns, nrefs) | None \<Rightarrow> None))"

text \<open>\<^verbatim>\<open>this.currentProfile.mixerChannels\<close>: the array and its elements.\<close>

definition currentMixerChannels :: "manager \<Rightarrow> (ref \<times> ref list) option" where
  "currentMixerChannels m =
     (case currentArrays m of
        None \<Rightarrow> None
      | Some (ns, cs) \<Rightarrow>
          (case arrayAt (heap m) cs of Some crefs \<Rightarrow> Some (cs, crefs) | None \<Rightarrow> None))"

text \<open>
  \<^verbatim>\<open>addEQNode(node) { this.currentProfile.equalizerNodes.push(node); this.refreshEQNodes(); }\<close>
  (\<^verbatim>\<open>refreshEQNodes\<close> rebuilds the audio nodes from the profile and does not write to it.)
\<close>

definition addEQNode :: "ref \<Rightarrow> manager \<Rightarrow> error option \<times> manager" where
  "addEQNode node m =
     (case currentEqualizerNodes m of
        None \<Rightarrow> (Some TypeError, m)
      | Some (ns, nrefs) \<Rightarrow> (None, m\<lparr>heap := (heap m)[ns := ArrayCell (nrefs @ [node])]\<rparr>))"

text \<open>
  The click on the zero line, the only caller of \<^verbatim>\<open>addEQNode\<close>:
  \<^verbatim>\<open>const node = new AudioEQNode(type, frequency, 0, 1); this.addEQNode(node);\<close>
\<close>

definition zeroLineNodeClick :: "string \<Rightarrow> real \<Rightarrow> manager \<Rightarrow> error option \<times> manager" where
  "zeroLineNodeClick type newFrequency m =
     (case alloc (NodeCell \<lparr>nodeType = type, frequency = newFrequency, nodeGain = 0, q = 1\<rparr>) (heap m) of
        (node, h') \<Rightarrow> addEQNode node (m\<lparr>heap := h'\<rparr>))"

text \<open>
  An assignment to fields of \<^verbatim>\<open>this.currentProfile.equalizerNodes[i]\<close>, given as the
  change of the node's fields.
\<close>

definition updateNode :: "nat \<Rightarrow> (AudioEQNode \<Rightarrow> AudioEQNode) \<Rightarrow> manager \<Rightarrow> error option \<times> manager" where
  "updateNode i f m =
     (case currentEqualizerNodes m of
        None \<Rightarrow> (Some TypeError, m)
      | Some (ns, nrefs) \<Rightarrow>
          (if i < length nrefs
           then (case nodeAt (heap m) (nrefs ! i) of
                   Some node \<Rightarrow> (None, m\<lparr>heap := (heap m)[nrefs ! i := NodeCell (f node)]\<rparr>)
                 | None \<Rightarrow> (Some TypeError, m))
           else (Some TypeError, m)))"

definition typesThatUseGain :: "string list" where
  "typesThatUseGain = [''peaking'', ''lowshelf'', ''highshelf'']"

definition rotateTypes :: "string list" where
  "rotateTypes = [''peaking'', ''lowshelf'', ''highshelf'', ''lowpass'', ''highpass'', ''notch'', ''bandpass'']"

text \<open>
  Dragging the marker of node \<open>i\<close> assigns the frequency and, for the types that use a
  gain, the gain; the wheel assigns \<open>q\<close>; a double click moves the type one step forward
  in \<^verbatim>\<open>rotateTypes\<close> and a double right click one step back (nothing happens for a
  type that is not in the list).  The handlers read the type from the audio node of the
  marker, which \<^verbatim>\<open>refreshEQNodes\<close> and the handlers keep equal to the type of the
  profile's node; the new values (from the pointer position and the wheel) are arguments.
\<close>

definition nodeDrag :: "nat \<Rightarrow> real \<Rightarrow> real \<Rightarrow> manager \<Rightarrow> error option \<times> manager" where
  "nodeDrag i newFrequency newDB m =
     updateNode i (\<lambda>node. if nodeType node \<in> set typesThatUseGain
                           then node\<lparr>frequency := newFrequency, nodeGain := newDB\<rparr>
                           else node\<lparr>frequency := newFrequency\<rparr>) m"

definition nodeWheel :: "nat \<Rightarrow> real \<Rightarrow> manager \<Rightarrow> error option \<times> manager" where
  "nodeWheel i newQ m = updateNode i (\<lambda>node. node\<lparr>q := newQ\<rparr>) m"

definition nodeRotateType :: "nat \<Rightarrow> bool \<Rightarrow> manager \<Rightarrow> error option \<times> manager" where
  "nodeRotateType i forward m =
     updateNode i (\<lambda>node. case indexOf rotateTypes (nodeType node) of
                             None \<Rightarrow> node
                           | Some index \<Rightarrow>
                               node\<lparr>nodeType := rotateTypes !
                                 ((if forward then index + 1 else index + length rotateTypes - 1)
                                  mod length rotateTypes)\<rparr>) m"

text \<open>
  The Delete key on the marker of node \<open>i\<close>:
  \<^verbatim>\<open>this.currentProfile.equalizerNodes.splice(i, 1)\<close>.
\<close>

definition nodeDelete :: "nat \<Rightarrow> manager \<Rightarrow> error option \<times> manager" where
  "nodeDelete i m =
     (case currentEqualizerNodes m of
        None \<Rightarrow> (Some TypeError, m)
      | Some (ns, nrefs) \<Rightarrow>
          (None, m\<lparr>heap := (heap m)[ns := ArrayCell (take i nrefs @ drop (Suc i) nrefs)]\<rparr>))"

text \<open>
  The padding of \<^verbatim>\<open>refreshMixer\<close> on the current profile: the missing channels are
  created and pushed.
\<close>

definition refreshMixerCurrent :: "manager \<Rightarrow> error option \<times> manager" where
  "refreshMixerCurrent m =
     (case currentProfile m of
        None \<Rightarrow> (None, m)
      | Some c \<Rightarrow>
          (case currentMixerChannels m of
             None \<Rightarrow> (Some TypeError, m)
           | Some (cs, crefs) \<Rightarrow>
               (case allocAll (map ChannelCell
                        (map (\<lambda>j. newAudioChannelControl (int j) 1 False False) [length crefs..<7]))
                      (heap m) of
                  (new, h') \<Rightarrow> (None, m\<lparr>heap := h'[cs := ArrayCell (crefs @ new)]\<rparr>))))"

text \<open>
  \<^verbatim>\<open>saveCurrentProfile\<close>: \<open>dropdownProfile\<close> is the stored profile that
  \<^verbatim>\<open>getDropdownProfile\<close> finds for the selected entry, if any.  A copy of the current
  profile gets the label and the id of that profile and replaces it in the store.
\<close>

definition saveCurrentProfile :: "ref option \<Rightarrow> manager \<Rightarrow> error option \<times> manager" where
  "saveCurrentProfile dropdownProfile m =
     (case dropdownProfile of
        None \<Rightarrow> (None, m)
      | Some profile \<Rightarrow>
          (case currentProfile m of
             None \<Rightarrow> (Some TypeError, m)
           | Some c \<Rightarrow>
               (case copy (heap m) c of
                  None \<Rightarrow> (Some TypeError, m)
                | Some (newCopy, h') \<Rightarrow>
                    (case (lookup h' newCopy, lookup h' profile) of
                       (Some (ProfileCell i l ns cs), Some (ProfileCell i' l' ns' cs')) \<Rightarrow>
                         (None, m\<lparr>heap := h'[newCopy := ProfileCell i' l' ns cs],
                                   profiles := (case indexOf (profiles m) profile of
                                                  Some index \<Rightarrow> (profiles m)[index := newCopy]
                                                | None \<Rightarrow> profiles m)\<rparr>)
                     | _ \<Rightarrow> (Some TypeError, m\<lparr>heap := h'\<rparr>)))))"

section \<open>The mixer elements and their handlers\<close>

text \<open>
  \<^verbatim>\<open>createMixerChannel(channel)\<close> builds the element of one channel.  Its handlers do
  not read \<^verbatim>\<open>this.currentProfile\<close> when an event arrives: they close over the channel
  object they were built for and over
  \<^verbatim>\<open>const currentProfile = this.currentProfile\<close>, the profile that was current when
  \<^verbatim>\<open>refreshMixer\<close> ran.  \<^verbatim>\<open>setCurrentProfile\<close> alone (the Load button) leaves the
  elements as they are, so that afterwards they still act on the profile of before.  The
  session is the manager together with what the elements are bound to:
  \<open>mixerProfile\<close> is the captured profile and \<open>mixerChannelElements\<close> gives, for each
  element of \<^verbatim>\<open>this.mixerChannelElements\<close>, its channel object.
\<close>

record session =
  mgr :: manager
  mixerProfile :: "ref option"
  mixerChannelElements :: "ref list"

text \<open>The state the constructor leaves: no profiles, no current profile, no elements.\<close>

definition newSession :: session where
  "newSession = \<lparr>mgr = \<lparr>heap = [], profiles = [], currentProfile = None\<rparr>,
                  mixerProfile = None, mixerChannelElements = []\<rparr>"

text \<open>A method of the manager that leaves the mixer elements alone.\<close>

definition onManager :: "(manager \<Rightarrow> error option \<times> manager) \<Rightarrow> session \<Rightarrow> error option \<times> session" where
  "onManager f s = (case f (mgr s) of (e, m') \<Rightarrow> (e, s\<lparr>mgr := m'\<rparr>))"

text \<open>
  \<^verbatim>\<open>refreshMixer\<close> on the session.  It empties \<^verbatim>\<open>this.mixerChannelElements\<close> and the
  two containers of the old elements first.  With a current profile it pads the channels
  and builds the elements for \<^verbatim>\<open>mixerChannels[0]\<close> to \<^verbatim>\<open>mixerChannels[6]\<close>, which
  capture that profile.  (\<^verbatim>\<open>updateMixerNodes\<close> at the end writes to the gain nodes
  only.)
\<close>

definition refreshMixerSession :: "session \<Rightarrow> error option \<times> session" where
  "refreshMixerSession s =
     (case currentProfile (mgr s) of
        None \<Rightarrow> (None, s\<lparr>mixerChannelElements := []\<rparr>)
      | Some c \<Rightarrow>
          (case refreshMixerCurrent (mgr s) of
             (Some e, m') \<Rightarrow> (Some e, s\<lparr>mgr := m', mixerChannelElements := []\<rparr>)
           | (None, m') \<Rightarrow>
               (case currentMixerChannels m' of
                  None \<Rightarrow> (Some TypeError, s\<lparr>mgr := m', mixerChannelElements := []\<rparr>)
                | Some (cs, crefs) \<Rightarrow>
                    (None, s\<lparr>mgr := m', mixerProfile := Some c,
                              mixerChannelElements := take 7 crefs\<rparr>))))"

text \<open>
  An assignment to fields of the channel object of element \<open>k\<close>:
  \<^verbatim>\<open>setChannelGain(channel, gain)\<close> assigns \<^verbatim>\<open>channel.gain\<close> and the mute button
  negates \<^verbatim>\<open>channel.muted\<close>.  Without an element \<open>k\<close> there is nothing to click.
\<close>

definition updateElementChannel ::
  "nat \<Rightarrow> (AudioChannelControl \<Rightarrow> AudioChannelControl) \<Rightarrow> session \<Rightarrow> error option \<times> session" where
  "updateElementChannel k f s =
     (if k < length (mixerChannelElements s)
      then (case channelAt (heap (mgr s)) (mixerChannelElements s ! k) of
              Some channel \<Rightarrow>
                (None, s\<lparr>mgr := (mgr s)\<lparr>heap :=
                   (heap (mgr s))[mixerChannelElements s ! k := ChannelCell (f channel)]\<rparr>\<rparr>)
            | None \<Rightarrow> (Some TypeError, s))
      else (None, s))"

definition setChannelGain :: "nat \<Rightarrow> real \<Rightarrow> session \<Rightarrow> error option \<times> session" where
  "setChannelGain k newGain s = updateElementChannel k (\<lambda>channel. channel\<lparr>gain := newGain\<rparr>) s"

definition muteButtonClick :: "nat \<Rightarrow> session \<Rightarrow> error option \<times> session" where
  "muteButtonClick k s = updateElementChannel k (\<lambda>channel. channel\<lparr>muted := \<not> muted channel\<rparr>) s"

text \<open>
  The \<^verbatim>\<open>forEach\<close> of the solo button on channel objects: each channel of the list gets
  \<^verbatim>\<open>solo = false\<close>, and the loop throws after that assignment when the channel's id
  addresses none of the \<open>n\<close> elements.
\<close>

fun clearSoloAt :: "nat \<Rightarrow> ref list \<Rightarrow> heap \<Rightarrow> error option \<times> heap" where
  "clearSoloAt n [] h = (None, h)"
| "clearSoloAt n (r # rest) h =
     (case channelAt h r of
        None \<Rightarrow> (Some TypeError, h)
      | Some channel \<Rightarrow>
          (if 0 \<le> channelId channel \<and> nat (channelId channel) < n
           then clearSoloAt n rest (h[r := ChannelCell (channel\<lparr>solo := False\<rparr>)])
           else (Some TypeError, h[r := ChannelCell (channel\<lparr>solo := False\<rparr>)])))"

text \<open>\<^verbatim>\<open>channel.solo = !channel.solo\<close> on the channel object \<open>r\<close>.\<close>

definition negateSoloAt :: "ref \<Rightarrow> heap \<Rightarrow> heap" where
  "negateSoloAt r h =
     (case channelAt h r of
        Some channel \<Rightarrow> h[r := ChannelCell (channel\<lparr>solo := \<not> solo channel\<rparr>)]
      | None \<Rightarrow> h)"

text \<open>\<^verbatim>\<open>currentProfile.mixerChannels\<close> of the captured profile, read at the click.\<close>

definition capturedMixerChannels :: "session \<Rightarrow> ref list option" where
  "capturedMixerChannels s =
     (case mixerProfile s of
        None \<Rightarrow> None
      | Some c \<Rightarrow>
          (case lookup (heap (mgr s)) c of
             Some (ProfileCell i l ns cs) \<Rightarrow> arrayAt (heap (mgr s)) cs
           | _ \<Rightarrow> None))"

text \<open>
  The solo button of element \<open>k\<close>: when its channel is not soloed, the flags of all
  channels of the captured profile are cleared; then the flag of its channel is negated.
  (\<^verbatim>\<open>updateMixerNodes\<close> at the end writes to the gain nodes only.)
\<close>

definition soloButtonClickElement :: "nat \<Rightarrow> session \<Rightarrow> error option \<times> session" where
  "soloButtonClickElement k s =
     (if k < length (mixerChannelElements s)
      then (case channelAt (heap (mgr s)) (mixerChannelElements s ! k) of
              None \<Rightarrow> (Some TypeError, s)
            | Some channel \<Rightarrow>
                (if \<not> solo channel
                 then (case capturedMixerChannels s of
                         None \<Rightarrow> (Some TypeError, s)
                       | Some crefs \<Rightarrow>
                           (case clearSoloAt (length (mixerChannelElements s)) crefs (heap (mgr s)) of
                              (Some e, h1) \<Rightarrow> (Some e, s\<lparr>mgr := (mgr s)\<lparr>heap := h1\<rparr>\<rparr>)
                            | (None, h1) \<Rightarrow>
                                (None, s\<lparr>mgr := (mgr s)\<lparr>heap :=
                                   negateSoloAt (mixerChannelElements s ! k) h1\<rparr>\<rparr>)))
                 else (None, s\<lparr>mgr := (mgr s)\<lparr>heap :=
                         negateSoloAt (mixerChannelElements s ! k) (heap (mgr s))\<rparr>\<rparr>)))
      else (None, s))"

section \<open>Events\<close>

text \<open>
  The events that change the current profile or the mixer elements and leave the store
  alone: the edits of the equalizer and of the mixer, \<^verbatim>\<open>refreshMixer\<close>, and
  \<^verbatim>\<open>setCurrentProfile\<close> (the Load button calls it for the selected stored profile,
  \<^verbatim>\<open>loadProfilesFromStorage\<close> for the stored profile to start with).
\<close>

datatype edit =
    ZeroLineNodeClick string real
  | NodeDrag nat real real
  | NodeWheel nat real
  | NodeRotateType nat bool
  | NodeDelete nat
  | SetChannelGain nat real
  | MuteButtonClick nat
  | SoloButtonClick nat
  | RefreshMixer
  | SetCurrentProfile ref

fun applyEdit :: "edit \<Rightarrow> session \<Rightarrow> error option \<times> session" where
  "applyEdit (ZeroLineNodeClick type newFrequency) s = onManager (zeroLineNodeClick type newFrequency) s"
| "applyEdit (NodeDrag i newFrequency newDB) s = onManager (nodeDrag i newFrequency newDB) s"
| "applyEdit (NodeWheel i newQ) s = onManager (nodeWheel i newQ) s"
| "applyEdit (NodeRotateType i forward) s = onManager (nodeRotateType i forward) s"
| "applyEdit (NodeDelete i) s = onManager (nodeDelete i) s"
| "applyEdit (SetChannelGain k newGain) s = setChannelGain k newGain s"
| "applyEdit (MuteButtonClick k) s = muteButtonClick k s"
| "applyEdit (SoloButtonClick k) s = soloButtonClickElement k s"
| "applyEdit RefreshMixer s = refreshMixerSession s"
| "applyEdit (SetCurrentProfile profile) s = onManager (setCurrentProfile profile) s"

text \<open>
  A sequence of events; an event that throws ends its handler only, and the next event is
  handled on the state it left.
\<close>

fun applyEdits :: "edit list \<Rightarrow> session \<Rightarrow> session" where
  "applyEdits [] s = s"
| "applyEdits (e # es) s = applyEdits es (snd (applyEdit e s))"

text \<open>
  The statement of \<^verbatim>\<open>loadProfilesFromStorage\<close> that fills the store,
  \<^verbatim>\<open>this.profiles = audioProfiles.map((profile) => AudioProfile.fromObj(profile))\<close>.
\<close>

fun fromObjAll :: "profileObj list \<Rightarrow> heap \<Rightarrow> ref list \<times> heap" where
  "fromObjAll [] h = ([], h)"
| "fromObjAll (obj # objs) h =
     (case fromObj obj h of (p, h1) \<Rightarrow> (case fromObjAll objs h1 of (ps, h2) \<Rightarrow> (p # ps, h2)))"

definition storageProfiles :: "profileObj list \<Rightarrow> manager \<Rightarrow> manager" where
  "storageProfiles audioProfiles m =
     (case fromObjAll audioProfiles (heap m) of (ps, h') \<Rightarrow> m\<lparr>heap := h', profiles := ps\<rparr>)"

text \<open>
  Renaming an entry of the dropdown: the stored profile with the id of the entry, if
  there is one, gets the new label (\<^verbatim>\<open>profile.label = displayName\<close>).
\<close>

definition renameProfile :: "int \<Rightarrow> string \<Rightarrow> manager \<Rightarrow> manager" where
  "renameProfile i displayName m =
     (case find (\<lambda>p. profileId (heap m) p = Some i) (profiles m) of
        None \<Rightarrow> m
      | Some p \<Rightarrow>
          (case lookup (heap m) p of
             Some (ProfileCell i' l ns cs) \<Rightarrow> m\<lparr>heap := (heap m)[p := ProfileCell i' displayName ns cs]\<rparr>
           | _ \<Rightarrow> m))"

text \<open>
  The methods that write to the store: \<^verbatim>\<open>newProfile\<close>, \<^verbatim>\<open>loadProfileFile\<close>,
  \<^verbatim>\<open>deleteProfile\<close>, \<^verbatim>\<open>saveCurrentProfile\<close>, the filling of the store from storage
  and the renaming.  Every handler of the source that touches profiles is a sequence of
  these and of the events above (\<^verbatim>\<open>loadProfilesFromStorage\<close>, for instance, is
  \<^verbatim>\<open>newProfile\<close> or the filling, then \<^verbatim>\<open>setCurrentProfile\<close>, then
  \<^verbatim>\<open>refreshMixer\<close>), so every state the program reaches is reached by a list of
  actions from \<open>newSession\<close>.
\<close>

datatype action =
    Edit edit
  | NewProfile
  | LoadProfileFile string profileFile
  | DeleteProfile ref
  | SaveCurrentProfile "ref option"
  | StorageProfiles "profileObj list"
  | RenameProfile int string

fun perform :: "action \<Rightarrow> session \<Rightarrow> session" where
  "perform (Edit e) s = snd (applyEdit e s)"
| "perform NewProfile s = s\<lparr>mgr := newProfile (mgr s)\<rparr>"
| "perform (LoadProfileFile today obj) s = s\<lparr>mgr := snd (loadProfileFile today obj (mgr s))\<rparr>"
| "perform (DeleteProfile profile) s = s\<lparr>mgr := snd (deleteProfile profile (mgr s))\<rparr>"
| "perform (SaveCurrentProfile dropdownProfile) s =
     s\<lparr>mgr := snd (saveCurrentProfile dropdownProfile (mgr s))\<rparr>"
| "perform (StorageProfiles audioProfiles) s = s\<lparr>mgr := storageProfiles audioProfiles (mgr s)\<rparr>"
| "perform (RenameProfile i displayName) s = s\<lparr>mgr := renameProfile i displayName (mgr s)\<rparr>"

definition performAll :: "action list \<Rightarrow> session \<Rightarrow> session" where
  "performAll as s = foldl (\<lambda>s' a. perform a s') s as"

section \<open>Store objects and working objects\<close>

text \<open>
  The references a cell holds.
\<close>

fun refsOf :: "cell \<Rightarrow> ref list" where
  "refsOf (ProfileCell i l ns cs) = [ns, cs]"
| "refsOf (ArrayCell rs) = rs"
| "refsOf (NodeCell node) = []"
| "refsOf (ChannelCell channel) = []"

text \<open>
  The objects the handlers start from: the current profile, the captured profile and
  the channel objects of the mixer elements.
\<close>

definition roots :: "session \<Rightarrow> ref list" where
  "roots s =
     (case currentProfile (mgr s) of None \<Rightarrow> [] | Some c \<Rightarrow> [c])
     @ (case mixerProfile s of None \<Rightarrow> [] | Some c \<Rightarrow> [c])
     @ mixerChannelElements s"

text \<open>
  A list \<open>S\<close> of references separates the store from the rest of a heap \<open>h\<close> with stored
  profiles \<open>ps\<close> and roots \<open>rs\<close> when every reference in the heap is to an existing
  object and stays on its side (an object of \<open>S\<close> refers to objects of \<open>S\<close> only, an
  object outside to objects outside only), \<open>S\<close> lies in the heap, the stored profiles are
  in \<open>S\<close> and the roots are outside.
\<close>

definition separates :: "ref list \<Rightarrow> heap \<Rightarrow> ref list \<Rightarrow> ref list \<Rightarrow> bool" where
  "separates S h ps rs \<longleftrightarrow>
     list_all (\<lambda>a. list_all (\<lambda>r. r < length h \<and> ((a \<in> set S) = (r \<in> set S))) (refsOf (h ! a)))
       [0..<length h]
     \<and> list_all (\<lambda>a. a < length h) S
     \<and> list_all (\<lambda>p. p \<in> set S) ps
     \<and> list_all (\<lambda>r. r < length h \<and> r \<notin> set S) rs"

definition separated :: "ref list \<Rightarrow> session \<Rightarrow> bool" where
  "separated S s = separates S (heap (mgr s)) (profiles (mgr s)) (roots s)"

text \<open>A heap \<open>h'\<close> that extends \<open>h\<close> and has the same objects at the references of \<open>S\<close>.\<close>

definition unchangedOn :: "ref list \<Rightarrow> heap \<Rightarrow> heap \<Rightarrow> bool" where
  "unchangedOn S h h' \<longleftrightarrow> length h \<le> length h' \<and> list_all (\<lambda>a. h' ! a = h ! a) S"

section \<open>Gain resolution\<close>

lemma findIndex_None: "findIndex P xs = None \<longleftrightarrow> (\<forall>j<length xs. \<not> P (xs ! j))"
proof (induction xs)
  case Nil
  show ?case by simp
next
  case (Cons x xs)
  show ?case
  proof (cases "P x")
    case True
    then show ?thesis by auto
  next
    case False
    have "(\<forall>j<Suc (length xs). \<not> P ((x # xs) ! j)) \<longleftrightarrow> (\<forall>j<length xs. \<not> P (xs ! j))"
      using False by (auto simp: less_Suc_eq_0_disj)
    with Cons False show ?thesis by simp
  qed
qed

lemma findIndex_Some:
  "findIndex P xs = Some k \<longleftrightarrow> k < length xs \<and> P (xs ! k) \<and> (\<forall>j<k. \<not> P (xs ! j))"
proof (induction xs arbitrary: k)
  case Nil
  show ?case by simp
next
  case (Cons x xs)
  show ?case
  proof (cases "P x")
    case True
    then show ?thesis by (cases k) auto
  next
    case False
    show ?thesis
    proof (cases k)
      case 0
      with False show ?thesis by auto
    next
      case (Suc m)
      have "(\<forall>j<Suc m. \<not> P ((x # xs) ! j)) \<longleftrightarrow> (\<forall>j<m. \<not> P (xs ! j))"
        using False by (auto simp: less_Suc_eq_0_disj)
      with Cons [of m] False Suc show ?thesis by auto
    qed
  qed
qed

lemma pushGains_valid:
  assumes "\<forall>c\<in>set cs. 0 \<le> channelId c \<and> nat (channelId c) < length g"
    and "distinct (map channelId cs)"
  shows "\<exists>g'. pushGains s n cs g = (None, g') \<and> length g' = length g
           \<and> (\<forall>i<length cs. g' ! nat (channelId (cs ! i)) = gainFor s (n + i) (cs ! i))
           \<and> (\<forall>a. a \<notin> (\<lambda>c. nat (channelId c)) ` set cs \<longrightarrow> g' ! a = g ! a)"
  using assms
proof (induction cs arbitrary: n g)
  case Nil
  show ?case by simp
next
  case (Cons c cs)
  let ?g1 = "g[nat (channelId c) := gainFor s n c]"
  have valid_c: "0 \<le> channelId c" "nat (channelId c) < length g"
    using Cons.prems(1) by auto
  have rest_valid: "\<forall>d\<in>set cs. 0 \<le> channelId d \<and> nat (channelId d) < length ?g1"
    using Cons.prems(1) by auto
  have rest_distinct: "distinct (map channelId cs)"
    using Cons.prems(2) by simp
  from Cons.IH [OF rest_valid rest_distinct, of "Suc n"]
  obtain g' where run: "pushGains s (Suc n) cs ?g1 = (None, g')"
    and len: "length g' = length ?g1"
    and vals: "\<forall>i<length cs. g' ! nat (channelId (cs ! i)) = gainFor s (Suc n + i) (cs ! i)"
    and frame: "\<forall>a. a \<notin> (\<lambda>d. nat (channelId d)) ` set cs \<longrightarrow> g' ! a = ?g1 ! a"
    by blast
  have c_fresh: "nat (channelId c) \<notin> (\<lambda>d. nat (channelId d)) ` set cs"
  proof
    assume "nat (channelId c) \<in> (\<lambda>d. nat (channelId d)) ` set cs"
    then obtain d where d: "d \<in> set cs" "nat (channelId c) = nat (channelId d)" by blast
    have "0 \<le> channelId d" using Cons.prems(1) d(1) by simp
    with d(2) valid_c(1) have "channelId c = channelId d" by simp
    with d(1) Cons.prems(2) show False by force
  qed
  have head: "g' ! nat (channelId c) = gainFor s n c"
    using frame c_fresh valid_c(2) by simp
  have "pushGains s n (c # cs) g = (None, g')"
    using valid_c run by simp
  moreover have "length g' = length g"
    using len by simp
  moreover have "\<forall>i<length (c # cs). g' ! nat (channelId ((c # cs) ! i)) = gainFor s (n + i) ((c # cs) ! i)"
  proof (intro allI impI)
    fix i assume "i < length (c # cs)"
    then show "g' ! nat (channelId ((c # cs) ! i)) = gainFor s (n + i) ((c # cs) ! i)"
      using head vals by (cases i) auto
  qed
  moreover have "\<forall>a. a \<notin> (\<lambda>d. nat (channelId d)) ` set (c # cs) \<longrightarrow> g' ! a = g ! a"
    using frame by auto
  ultimately show ?case by blast
qed


lemma first_solo_unique:
  assumes "length (filter solo channels) \<le> 1" "k < length channels" "solo (channels ! k)"
    "j < length channels" "solo (channels ! j)"
  shows "j = k"
proof (rule ccontr)
  assume "j \<noteq> k"
  have "{j, k} \<subseteq> {n. n < length channels \<and> solo (channels ! n)}" using assms by auto
  then have "card {j, k} \<le> card {n. n < length channels \<and> solo (channels ! n)}"
    by (intro card_mono) auto
  also have "\<dots> = length (filter solo channels)"
    by (simp add: length_filter_conv_card)
  finally show False using \<open>j \<noteq> k\<close> assms(1) by simp
qed

lemma gainFor_spec:
  assumes "length (filter solo channels) \<le> 1" "i < length channels"
  shows "gainFor (findIndex solo channels) i (channels ! i) = resolveEffectiveGain_spec channels i"
proof (cases "findIndex solo channels")
  case None
  then have "\<forall>j<length channels. \<not> solo (channels ! j)" by (simp add: findIndex_None)
  then have "filter (\<lambda>j. solo (channels ! j)) [0..<length channels] = []"
    by (simp add: filter_empty_conv)
  with None show ?thesis by (simp add: gainFor_def resolveEffectiveGain_spec_def)
next
  case (Some k)
  then have k: "k < length channels" "solo (channels ! k)" by (simp_all add: findIndex_Some)
  have mem: "i \<in> set (filter (\<lambda>j. solo (channels ! j)) [0..<length channels]) \<longleftrightarrow> i = k"
  proof
    assume "i \<in> set (filter (\<lambda>j. solo (channels ! j)) [0..<length channels])"
    then have "solo (channels ! i)" by simp
    then show "i = k" by (rule first_solo_unique [OF assms(1) k assms(2)])
  next
    assume "i = k"
    with k show "i \<in> set (filter (\<lambda>j. solo (channels ! j)) [0..<length channels])" by simp
  qed
  have ne: "filter (\<lambda>j. solo (channels ! j)) [0..<length channels] \<noteq> []"
    using k by (auto simp: filter_empty_conv)
  show ?thesis unfolding Some gainFor_def resolveEffectiveGain_spec_def Let_def
    using mem ne by simp
qed

text \<open>
  Claim C1, as amended.  \<^verbatim>\<open>updateMixerNodes\<close> takes the first channel marked
  solo (\<^verbatim>\<open>channels.find\<close>) and silences every other channel whose id is not 6.
  With the ids valid for the gain nodes and pairwise distinct, the gain node of the
  channel at position \<open>i\<close> receives 0 when some channel is marked solo, the channel is
  not the first such one and its id is not 6, and \<open>muted ? 0 : gain\<close> otherwise; the
  master (id 6) always receives \<open>muted ? 0 : gain\<close>; and when at most one channel is
  marked solo this is the rule of the specification.
\<close>

theorem updateMixerNodes_first_solo:
  assumes valid: "\<forall>c\<in>set channels. 0 \<le> channelId c \<and> nat (channelId c) < length g"
    and dist: "distinct (map channelId channels)"
    and i: "i < length channels"
  shows "\<exists>g'. updateMixerNodes (Some g) (Some channels) = (None, Some g')
           \<and> length g' = length g
           \<and> g' ! nat (channelId (channels ! i)) =
               (if (\<exists>k<length channels. solo (channels ! k) \<and> (\<forall>j<k. \<not> solo (channels ! j)) \<and> i \<noteq> k)
                     \<and> channelId (channels ! i) \<noteq> 6
                then 0
                else if muted (channels ! i) then 0 else gain (channels ! i))
           \<and> (channelId (channels ! i) = 6 \<longrightarrow>
                 g' ! 6 = (if muted (channels ! i) then 0 else gain (channels ! i)))
           \<and> (length (filter solo channels) \<le> 1 \<longrightarrow>
                 g' ! nat (channelId (channels ! i)) = resolveEffectiveGain_spec channels i)"
proof -
  from pushGains_valid [OF valid dist, of "findIndex solo channels" 0]
  obtain g' where run: "pushGains (findIndex solo channels) 0 channels g = (None, g')"
    and len: "length g' = length g"
    and vals: "\<forall>i<length channels.
                 g' ! nat (channelId (channels ! i)) = gainFor (findIndex solo channels) i (channels ! i)"
    by auto
  have upd: "updateMixerNodes (Some g) (Some channels) = (None, Some g')"
    using run by (simp add: updateMixerNodes_def)
  have val: "g' ! nat (channelId (channels ! i)) = gainFor (findIndex solo channels) i (channels ! i)"
    using vals i by blast
  have first: "gainFor (findIndex solo channels) i (channels ! i) =
      (if (\<exists>k<length channels. solo (channels ! k) \<and> (\<forall>j<k. \<not> solo (channels ! j)) \<and> i \<noteq> k)
            \<and> channelId (channels ! i) \<noteq> 6
       then 0
       else if muted (channels ! i) then 0 else gain (channels ! i))"
  proof (cases "findIndex solo channels")
    case None
    then have "\<forall>j<length channels. \<not> solo (channels ! j)" by (simp add: findIndex_None)
    with None show ?thesis by (auto simp: gainFor_def)
  next
    case (Some k)
    then have k: "k < length channels" "solo (channels ! k)" "\<forall>j<k. \<not> solo (channels ! j)"
      by (simp_all add: findIndex_Some)
    have cond: "(\<exists>k'<length channels. solo (channels ! k') \<and> (\<forall>j<k'. \<not> solo (channels ! j)) \<and> i \<noteq> k')
                  \<longleftrightarrow> i \<noteq> k"
    proof
      assume "\<exists>k'<length channels. solo (channels ! k') \<and> (\<forall>j<k'. \<not> solo (channels ! j)) \<and> i \<noteq> k'"
      then obtain k' where k': "solo (channels ! k')" "\<forall>j<k'. \<not> solo (channels ! j)" "i \<noteq> k'"
        by blast
      have "\<not> k' < k" using k(3) k'(1) by blast
      moreover have "\<not> k < k'" using k'(2) k(2) by blast
      ultimately have "k' = k" by simp
      with k'(3) show "i \<noteq> k" by simp
    next
      assume "i \<noteq> k"
      with k show "\<exists>k'<length channels. solo (channels ! k') \<and> (\<forall>j<k'. \<not> solo (channels ! j)) \<and> i \<noteq> k'"
        by blast
    qed
    have "gainFor (Some k) i (channels ! i) =
            (if i \<noteq> k \<and> channelId (channels ! i) \<noteq> 6 then 0
             else if muted (channels ! i) then 0 else gain (channels ! i))"
      by (simp add: gainFor_def)
    then show ?thesis unfolding Some cond .
  qed
  have master: "channelId (channels ! i) = 6 \<longrightarrow>
      g' ! 6 = (if muted (channels ! i) then 0 else gain (channels ! i))"
  proof
    assume six: "channelId (channels ! i) = 6"
    then have "g' ! 6 = gainFor (findIndex solo channels) i (channels ! i)" using val by simp
    with six show "g' ! 6 = (if muted (channels ! i) then 0 else gain (channels ! i))"
      by (simp add: gainFor_def)
  qed
  have spec: "length (filter solo channels) \<le> 1 \<longrightarrow>
      g' ! nat (channelId (channels ! i)) = resolveEffectiveGain_spec channels i"
    using val gainFor_spec [of channels i] i by simp
  have "g' ! nat (channelId (channels ! i)) =
      (if (\<exists>k<length channels. solo (channels ! k) \<and> (\<forall>j<k. \<not> solo (channels ! j)) \<and> i \<noteq> k)
            \<and> channelId (channels ! i) \<noteq> 6
       then 0
       else if muted (channels ! i) then 0 else gain (channels ! i))"
    using val first by (rule trans)
  with upd len master spec show ?thesis by blast
qed

text \<open>
  Seven channels and seven gain nodes, as after \<^verbatim>\<open>refreshMixer\<close>: channel 1 is soloed,
  so the other regular channels are forced to 0 and the master keeps its gain.
\<close>

theorem updateMixerNodes_first_solo_witness:
  "updateMixerNodes (Some [1, 1, 1, 1, 1, 1, 1])
     (Some [\<lparr>channelId = 0, gain = 1, muted = False, solo = False\<rparr>,
           \<lparr>channelId = 1, gain = 1 / 2, muted = False, solo = True\<rparr>,
           \<lparr>channelId = 2, gain = 1, muted = True, solo = False\<rparr>,
           \<lparr>channelId = 3, gain = 1, muted = False, solo = False\<rparr>,
           \<lparr>channelId = 4, gain = 1, muted = False, solo = False\<rparr>,
           \<lparr>channelId = 5, gain = 1, muted = False, solo = False\<rparr>,
           \<lparr>channelId = 6, gain = 1, muted = False, solo = False\<rparr>])
   = (None, Some [0, 1 / 2, 0, 0, 0, 0, 1])"
  using updateMixerNodes_first_solo
    [of "[\<lparr>channelId = 0, gain = 1, muted = False, solo = False\<rparr>,
          \<lparr>channelId = 1, gain = 1 / 2, muted = False, solo = True\<rparr>,
          \<lparr>channelId = 2, gain = 1, muted = True, solo = False\<rparr>,
          \<lparr>channelId = 3, gain = 1, muted = False, solo = False\<rparr>,
          \<lparr>channelId = 4, gain = 1, muted = False, solo = False\<rparr>,
          \<lparr>channelId = 5, gain = 1, muted = False, solo = False\<rparr>,
          \<lparr>channelId = 6, gain = 1, muted = False, solo = False\<rparr>]"
        "[1, 1, 1, 1, 1, 1, 1]" 0]
  by (simp add: updateMixerNodes_def gainFor_def)

text \<open>
  Claim C1 as stated fails when two channels are marked solo: the second one is silenced,
  where the union rule keeps its own gain 1.
\<close>

theorem updateMixerNodes_union_counterexample:
  "updateMixerNodes (Some [1, 1, 1, 1, 1, 1, 1])
     (Some [\<lparr>channelId = 0, gain = 1, muted = False, solo = True\<rparr>,
           \<lparr>channelId = 1, gain = 1, muted = False, solo = True\<rparr>,
           \<lparr>channelId = 2, gain = 1, muted = False, solo = False\<rparr>,
           \<lparr>channelId = 3, gain = 1, muted = False, solo = False\<rparr>,
           \<lparr>channelId = 4, gain = 1, muted = False, solo = False\<rparr>,
           \<lparr>channelId = 5, gain = 1, muted = False, solo = False\<rparr>,
           \<lparr>channelId = 6, gain = 1, muted = False, solo = False\<rparr>])
   = (None, Some [1, 0, 0, 0, 0, 0, 1])
   \<and> resolveEffectiveGain_spec
        [\<lparr>channelId = 0, gain = 1, muted = False, solo = True\<rparr>,
         \<lparr>channelId = 1, gain = 1, muted = False, solo = True\<rparr>,
         \<lparr>channelId = 2, gain = 1, muted = False, solo = False\<rparr>,
         \<lparr>channelId = 3, gain = 1, muted = False, solo = False\<rparr>,
         \<lparr>channelId = 4, gain = 1, muted = False, solo = False\<rparr>,
         \<lparr>channelId = 5, gain = 1, muted = False, solo = False\<rparr>,
         \<lparr>channelId = 6, gain = 1, muted = False, solo = False\<rparr>] 1 = 1"
  by (simp add: updateMixerNodes_def gainFor_def resolveEffectiveGain_spec_def)

section \<open>The solo button\<close>

lemma clearSolo_valid:
  assumes "\<forall>c\<in>set cs. 0 \<le> channelId c \<and> nat (channelId c) < n"
  shows "clearSolo n cs = (None, map (\<lambda>c. c\<lparr>solo := False\<rparr>) cs)"
  using assms by (induction cs) auto

lemma soloedPositions_enable:
  assumes "k < length cs"
  shows "soloedPositions ((map (\<lambda>c. c\<lparr>solo := False\<rparr>) cs)[k := (cs ! k)\<lparr>solo := True\<rparr>]) = [k]"
proof -
  let ?cs' = "(map (\<lambda>c. c\<lparr>solo := False\<rparr>) cs)[k := (cs ! k)\<lparr>solo := True\<rparr>]"
  have "\<And>j. j < length cs \<Longrightarrow> solo (?cs' ! j) \<longleftrightarrow> j = k"
    using assms by (simp add: nth_list_update)
  then have "filter (\<lambda>j. solo (?cs' ! j)) [0..<length cs] = filter (\<lambda>j. j = k) [0..<length cs]"
    by (intro filter_cong) auto
  also have "\<dots> = [k]"
  proof -
    have "[0..<length cs] = [0..<k] @ k # [Suc k..<length cs]"
      using assms by (metis less_imp_le_nat upt_add_eq_append upt_conv_Cons le0 le_add_diff_inverse plus_nat.add_0)
    then show ?thesis by (simp add: filter_empty_conv)
  qed
  finally show ?thesis by (simp add: soloedPositions_def)
qed


lemma soloedPositions_disable:
  assumes "k < length cs"
  shows "soloedPositions (cs[k := (cs ! k)\<lparr>solo := False\<rparr>]) = filter (\<lambda>j. j \<noteq> k) (soloedPositions cs)"
proof -
  let ?cs' = "cs[k := (cs ! k)\<lparr>solo := False\<rparr>]"
  have "\<And>j. j < length cs \<Longrightarrow> solo (?cs' ! j) \<longleftrightarrow> j \<noteq> k \<and> solo (cs ! j)"
    using assms by (simp add: nth_list_update)
  then have "filter (\<lambda>j. solo (?cs' ! j)) [0..<length cs]
               = filter (\<lambda>j. j \<noteq> k \<and> solo (cs ! j)) [0..<length cs]"
    by (intro filter_cong) auto
  then show ?thesis by (simp add: soloedPositions_def conj_commute)
qed

lemma toggleSolo_enable:
  assumes "k < length channels" "\<not> solo (channels ! k)"
    and "\<forall>c\<in>set channels. 0 \<le> channelId c \<and> nat (channelId c) < n"
  shows "toggleSolo n k channels =
           (None, (map (\<lambda>c. c\<lparr>solo := False\<rparr>) channels)[k := (channels ! k)\<lparr>solo := True\<rparr>])"
  using assms by (simp add: toggleSolo_def clearSolo_valid)

lemma toggleSolo_disable:
  assumes "solo (channels ! k)"
  shows "toggleSolo n k channels = (None, channels[k := (channels ! k)\<lparr>solo := False\<rparr>])"
  using assms by (simp add: toggleSolo_def)

lemma soloButtonClick_channels:
  "fst (snd (soloButtonClick n g k channels)) = snd (toggleSolo n k channels)"
  by (simp add: soloButtonClick_def split: prod.splits option.splits)

text \<open>
  Claim C4, as amended.  A click on the solo button of a channel whose flag is false clears
  the flag of every channel of the profile (the master included) and then sets the flag of
  the clicked channel, so that exactly the clicked channel is soloed afterwards; a click
  on a channel whose flag is true clears that flag only and leaves the other flags as they
  were.  Hence a toggle keeps "at most one channel is soloed", and a toggle on channel B
  after A was soloed leaves A's flag false and B's true.  (The ids are those of the mixer
  elements, \<open>0..<n\<close>.)
\<close>

theorem soloButtonClick_exclusive:
  assumes k: "k < length channels"
    and ids: "\<forall>c\<in>set channels. 0 \<le> channelId c \<and> nat (channelId c) < n"
  shows "(\<not> solo (channels ! k) \<longrightarrow>
            fst (snd (soloButtonClick n g k channels)) =
              (map (\<lambda>c. c\<lparr>solo := False\<rparr>) channels)[k := (channels ! k)\<lparr>solo := True\<rparr>]
            \<and> soloedPositions (fst (snd (soloButtonClick n g k channels))) = [k])
       \<and> (solo (channels ! k) \<longrightarrow>
            fst (snd (soloButtonClick n g k channels)) = channels[k := (channels ! k)\<lparr>solo := False\<rparr>]
            \<and> soloedPositions (fst (snd (soloButtonClick n g k channels)))
                = filter (\<lambda>j. j \<noteq> k) (soloedPositions channels))
       \<and> (length (soloedPositions channels) \<le> 1 \<longrightarrow>
            length (soloedPositions (fst (snd (soloButtonClick n g k channels)))) \<le> 1)
       \<and> (\<forall>a. soloedPositions channels = [a] \<and> a \<noteq> k \<longrightarrow>
            \<not> solo (fst (snd (soloButtonClick n g k channels)) ! a)
            \<and> solo (fst (snd (soloButtonClick n g k channels)) ! k))"
proof -
  let ?after = "fst (snd (soloButtonClick n g k channels))"
  have enable_eq: "?after = (map (\<lambda>c. c\<lparr>solo := False\<rparr>) channels)[k := (channels ! k)\<lparr>solo := True\<rparr>]"
    if "\<not> solo (channels ! k)"
    using that k ids by (simp add: soloButtonClick_channels toggleSolo_enable)
  have enable_pos: "soloedPositions ?after = [k]" if "\<not> solo (channels ! k)"
    using k by (simp add: enable_eq [OF that] soloedPositions_enable)
  have disable_eq: "?after = channels[k := (channels ! k)\<lparr>solo := False\<rparr>]"
    if "solo (channels ! k)"
    using that by (simp add: soloButtonClick_channels toggleSolo_disable)
  have disable_pos: "soloedPositions ?after = filter (\<lambda>j. j \<noteq> k) (soloedPositions channels)"
    if "solo (channels ! k)"
    using k by (simp add: disable_eq [OF that] soloedPositions_disable)
  have keep: "length (soloedPositions ?after) \<le> 1" if one: "length (soloedPositions channels) \<le> 1"
  proof (cases "solo (channels ! k)")
    case True
    have "length (filter (\<lambda>j. j \<noteq> k) (soloedPositions channels)) \<le> length (soloedPositions channels)"
      by (rule length_filter_le)
    then have "length (soloedPositions ?after) \<le> length (soloedPositions channels)"
      by (simp only: disable_pos [OF True])
    from this one show ?thesis by (rule order_trans)
  next
    case False
    show ?thesis by (simp add: enable_pos [OF False])
  qed
  have b_after_a: "\<not> solo (?after ! a) \<and> solo (?after ! k)"
    if a: "soloedPositions channels = [a]" "a \<noteq> k" for a
  proof -
    have "k \<notin> set (soloedPositions channels)" using a by simp
    then have off: "\<not> solo (channels ! k)" using k by (simp add: soloedPositions_def)
    have "a \<in> set (soloedPositions channels)" using a by simp
    then have "a < length channels" by (simp add: soloedPositions_def)
    then show ?thesis using a(2) k by (simp add: enable_eq [OF off] nth_list_update)
  qed
  show ?thesis using enable_eq enable_pos disable_eq disable_pos keep b_after_a by blast
qed

text \<open>
  Channel 1 (Right) is soloed; a click on the solo button of channel 0 (Left) leaves
  channel 0 as the only soloed channel.
\<close>

theorem soloButtonClick_exclusive_witness:
  "fst (snd (soloButtonClick 7 None 0
     [\<lparr>channelId = 0, gain = 1, muted = False, solo = False\<rparr>,
      \<lparr>channelId = 1, gain = 1, muted = False, solo = True\<rparr>,
      \<lparr>channelId = 2, gain = 1, muted = False, solo = False\<rparr>,
      \<lparr>channelId = 3, gain = 1, muted = False, solo = False\<rparr>,
      \<lparr>channelId = 4, gain = 1, muted = False, solo = False\<rparr>,
      \<lparr>channelId = 5, gain = 1, muted = False, solo = False\<rparr>,
      \<lparr>channelId = 6, gain = 1, muted = False, solo = False\<rparr>]))
   = [\<lparr>channelId = 0, gain = 1, muted = False, solo = True\<rparr>,
       \<lparr>channelId = 1, gain = 1, muted = False, solo = False\<rparr>,
       \<lparr>channelId = 2, gain = 1, muted = False, solo = False\<rparr>,
       \<lparr>channelId = 3, gain = 1, muted = False, solo = False\<rparr>,
       \<lparr>channelId = 4, gain = 1, muted = False, solo = False\<rparr>,
       \<lparr>channelId = 5, gain = 1, muted = False, solo = False\<rparr>,
       \<lparr>channelId = 6, gain = 1, muted = False, solo = False\<rparr>]"
  using soloButtonClick_exclusive
    [of 0 "[\<lparr>channelId = 0, gain = 1, muted = False, solo = False\<rparr>,
          \<lparr>channelId = 1, gain = 1, muted = False, solo = True\<rparr>,
          \<lparr>channelId = 2, gain = 1, muted = False, solo = False\<rparr>,
          \<lparr>channelId = 3, gain = 1, muted = False, solo = False\<rparr>,
          \<lparr>channelId = 4, gain = 1, muted = False, solo = False\<rparr>,
          \<lparr>channelId = 5, gain = 1, muted = False, solo = False\<rparr>,
          \<lparr>channelId = 6, gain = 1, muted = False, solo = False\<rparr>]" 7 None]
  by simp

text \<open>
  Claim C4 as stated fails on a profile that was stored or imported with three channels
  marked solo: the click on the first of them clears its flag only, and two channels stay
  soloed.
\<close>

theorem soloButtonClick_two_left_counterexample:
  "soloedPositions (fst (snd (soloButtonClick 7 None 0
     [\<lparr>channelId = 0, gain = 1, muted = False, solo = True\<rparr>,
      \<lparr>channelId = 1, gain = 1, muted = False, solo = True\<rparr>,
      \<lparr>channelId = 2, gain = 1, muted = False, solo = True\<rparr>,
      \<lparr>channelId = 3, gain = 1, muted = False, solo = False\<rparr>,
      \<lparr>channelId = 4, gain = 1, muted = False, solo = False\<rparr>,
      \<lparr>channelId = 5, gain = 1, muted = False, solo = False\<rparr>,
      \<lparr>channelId = 6, gain = 1, muted = False, solo = False\<rparr>]))) = [1, 2]"
  by (simp add: soloButtonClick_def toggleSolo_def updateMixerNodes_def soloedPositions_def upt_rec)

section \<open>Refreshing the mixer\<close>

lemma addChannels_append:
  "addChannels i cs = cs @ map (\<lambda>j. newAudioChannelControl (int j) 1 False False) [i..<7]"
proof (induction i cs rule: addChannels.induct)
  case (1 i cs)
  show ?case
  proof (cases "i < 7")
    case True
    then have "[i..<7] = i # [Suc i..<7]" by (simp add: upt_conv_Cons)
    with 1 True show ?thesis by (simp add: addChannels.simps [of i cs])
  next
    case False
    then show ?thesis by (simp add: addChannels.simps [of i cs])
  qed
qed

text \<open>
  Claim C6, as amended.  \<^verbatim>\<open>refreshMixer\<close> pads the channels of the current profile
  and never truncates them: a list of fewer than seven channels is extended with default
  channels (id = position, gain 1, not muted, not soloed) to exactly seven entries, and a
  list of seven or more is left as it is.  The length afterwards is the maximum of 7 and
  the length before.
\<close>

theorem refreshMixer_pads:
  "fst (snd (refreshMixer g (Some channels))) =
     Some (channels @ map (\<lambda>j. newAudioChannelControl (int j) 1 False False) [length channels..<7])
   \<and> length (the (fst (snd (refreshMixer g (Some channels))))) = max 7 (length channels)"
proof -
  have "fst (snd (refreshMixer g (Some channels))) =
          Some (if length channels < 7 then addChannels (length channels) channels else channels)"
    by (simp add: refreshMixer_def Let_def split: prod.splits)
  also have "\<dots> = Some (channels @ map (\<lambda>j. newAudioChannelControl (int j) 1 False False) [length channels..<7])"
    by (simp add: addChannels_append)
  finally have eq: "fst (snd (refreshMixer g (Some channels))) =
     Some (channels @ map (\<lambda>j. newAudioChannelControl (int j) 1 False False) [length channels..<7])" .
  have "length (channels @ map (\<lambda>j. newAudioChannelControl (int j) 1 False False) [length channels..<7])
          = max 7 (length channels)"
    by simp
  with eq show ?thesis by simp
qed

text \<open>A profile without channels gets the seven default channels.\<close>

theorem refreshMixer_pads_witness:
  "fst (snd (refreshMixer None (Some []))) =
     Some [newAudioChannelControl 0 1 False False, newAudioChannelControl 1 1 False False,
           newAudioChannelControl 2 1 False False, newAudioChannelControl 3 1 False False,
           newAudioChannelControl 4 1 False False, newAudioChannelControl 5 1 False False,
           newAudioChannelControl 6 1 False False]"
  using refreshMixer_pads [of None "[]"] by (simp add: upt_rec)

text \<open>
  Claim C6 as stated fails on a profile stored with eight channels: all eight are still
  there after the refresh.
\<close>

theorem refreshMixer_eight_counterexample:
  "length (the (fst (snd (refreshMixer None
     (Some (map (\<lambda>j. \<lparr>channelId = int j, gain = 1, muted = False, solo = False\<rparr>) [0..<8]))))))
   = 8"
  by (simp add: refreshMixer_def updateMixerNodes_def)

section \<open>Peak meter\<close>

lemma roundHalfEven_of_int: "roundHalfEven (of_int n) = n"
  by (simp add: roundHalfEven_def)

text \<open>The rounding of a number whose binary exponent is \<open>e\<close>.\<close>

lemma roundToDouble_exponent:
  assumes "2 powr of_int e \<le> \<bar>x\<bar>" and "\<bar>x\<bar> < 2 powr of_int (e + 1)"
  shows "roundToDouble x
         = of_int (roundHalfEven (x * 2 powr of_int (52 - e))) * 2 powr of_int (e - 52)"
proof -
  have "(0::real) < 2 powr of_int e" by simp
  then have pos: "0 < \<bar>x\<bar>" using assms(1) by (rule less_le_trans)
  then have nz: "x \<noteq> 0" by simp
  have "\<lfloor>log 2 \<bar>x\<bar>\<rfloor> = e"
    using assms pos by (simp add: floor_log_eq_powr_iff)
  then show ?thesis using nz by (simp add: roundToDouble_def)
qed

text \<open>A number with at most 53 significant bits is a double.\<close>

lemma roundToDouble_exact:
  assumes "2 powr of_int e \<le> \<bar>x\<bar>" and "\<bar>x\<bar> < 2 powr of_int (e + 1)"
    and "x * 2 powr of_int (52 - e) = of_int n"
  shows "roundToDouble x = x"
proof -
  have "roundToDouble x = of_int n * 2 powr of_int (e - 52)"
    by (simp only: roundToDouble_exponent [OF assms(1,2)] assms(3) roundHalfEven_of_int)
  also have "\<dots> = x * (2 powr of_int (52 - e) * 2 powr of_int (e - 52))"
    by (simp only: assms(3) [symmetric] mult.assoc)
  also have "2 powr of_int (52 - e) * 2 powr of_int (e - 52) = (1::real)"
    by (simp add: powr_add [symmetric])
  finally show ?thesis by simp
qed

lemma roundToDouble_20: "roundToDouble 20 = 20"
  by (rule roundToDouble_exact [where e = 4 and n = "20 * 2 ^ 48"]) simp_all

lemma roundToDouble_10: "roundToDouble 10 = 10"
  by (rule roundToDouble_exact [where e = 3 and n = "10 * 2 ^ 49"]) simp_all

lemma roundToDouble_5: "roundToDouble 5 = 5"
  by (rule roundToDouble_exact [where e = 2 and n = "5 * 2 ^ 50"]) simp_all

lemma roundToDouble_2: "roundToDouble 2 = 2"
  by (rule roundToDouble_exact [where e = 1 and n = "2 ^ 52"]) simp_all


lemma roundToDouble_57: "roundToDouble 57 = 57"
  by (rule roundToDouble_exact [where e = 5 and n = "57 * 2 ^ 47"]) simp_all

lemma roundToDouble_57_50: "roundToDouble (57 / 50) = 5134103575202365 / 2 ^ 52"
proof -
  have "roundToDouble (57 / 50)
        = of_int (roundHalfEven (57 / 50 * 2 powr of_int (52 - 0))) * 2 powr of_int (0 - 52)"
    by (rule roundToDouble_exponent) simp_all
  also have "roundHalfEven (57 / 50 * 2 powr of_int (52 - 0)) = 5134103575202365"
    by (simp add: roundHalfEven_def)
  finally show ?thesis by (simp add: powr_minus_divide)
qed

lemma roundToDouble_quotient:
  "roundToDouble (57 / (5134103575202365 / 2 ^ 52)) = 7036874417766401 / 2 ^ 47"
proof -
  let ?x = "57 / (5134103575202365 / 2 ^ 52) :: real"
  have "roundToDouble ?x
        = of_int (roundHalfEven (?x * 2 powr of_int (52 - 5))) * 2 powr of_int (5 - 52)"
    by (rule roundToDouble_exponent) simp_all
  also have "roundHalfEven (?x * 2 powr of_int (52 - 5)) = 7036874417766401"
    by (simp add: roundHalfEven_def)
  finally show ?thesis by (simp add: powr_minus_divide)
qed

text \<open>
  The rounding shows in the count: on a canvas 57 pixels high a full level lights 51
  rectangles, one more than \<open>\<lceil>50 * 1\<rceil>\<close>.
\<close>

lemma rectCountOf_rounds: "rectCountOf 1 57 = 51"
proof -
  have "rectCountOf 1 57 = \<lceil>7036874417766401 / 2 ^ 47 :: real\<rceil>"
    by (simp only: rectCountOf_def mult_1 roundToDouble_57 roundToDouble_57_50 roundToDouble_quotient)
  also have "\<dots> = 51" by (simp add: ceiling_eq_iff)
  finally show ?thesis .
qed

lemma rectCountOf_fifth: "rectCountOf (1 / 5) 100 = 10"
  by (simp add: rectCountOf_def roundToDouble_20 roundToDouble_2 roundToDouble_10)

lemma rectCountOf_tenth: "rectCountOf (1 / 10) 100 = 5"
  by (simp add: rectCountOf_def roundToDouble_10 roundToDouble_2 roundToDouble_5)

text \<open>
  Without analyser, without mixer element and for a canvas without width or height the
  meter state stays as it is and no peak line is drawn.
\<close>

lemma renderMixerMeter_returns:
  "renderMixerMeter None els width height now = (els, None)
   \<and> renderMixerMeter analyzer None width height now = (None, None)
   \<and> renderMixerMeter analyzer els 0 height now = (els, None)
   \<and> renderMixerMeter analyzer els width 0 now = (els, None)"
  by (simp add: renderMixerMeter_def split: option.splits)

text \<open>
  Claim C5.  One tick of the meter with current height \<open>h\<close> at time \<open>now\<close>.  When there
  is no stored peak (none yet, or 0) or \<open>h\<close> exceeds it, the stored peak becomes \<open>h\<close> and
  its time \<open>now\<close>; otherwise both are kept.  With \<open>dt\<close> the time since the peak was
  stored: when \<open>dt < 1000\<close> and the peak is at least 1 the indicator has opacity 1 for
  \<open>dt < 650\<close> and \<open>1 - (dt - 650) / 350\<close> after that; when \<open>dt \<ge> 1000\<close> the peak is
  reset to 0 at \<open>now\<close>.  A peak of 10 stored at time 0 (a level of a fifth on a
  canvas 100 pixels high) has opacity \<open>1 - 50 / 350\<close> at time 700 and is reset at
  time 1100.  The result depends on the stored peak, its time, \<open>now\<close> and the level
  sample only.
\<close>

theorem peakStep_rule:
  "(peak els = None \<or> peak els = Some 0 \<or> (\<exists>p. peak els = Some p \<and> p < h) \<longrightarrow>
      peakStep els h now =
        (if 1 \<le> h then (els\<lparr>peak := Some h, peakTime := Some now\<rparr>, Some 1)
         else (els\<lparr>peak := Some 0, peakTime := Some now\<rparr>, None)))
   \<and> (\<forall>p t. peak els = Some p \<and> peakTime els = Some t \<and> 1 \<le> p \<and> h \<le> p \<longrightarrow>
         (now - t < 1000 \<longrightarrow>
            peakStep els h now =
              (els, Some (if now - t < 650 then 1 else 1 - real_of_int (now - t - 650) / 350)))
       \<and> (1000 \<le> now - t \<longrightarrow>
            peakStep els h now = (els\<lparr>peak := Some 0, peakTime := Some now\<rparr>, None)))
   \<and> (\<forall>els'. peak els' = peak els \<and> peakTime els' = peakTime els \<longrightarrow>
          peakStep els' h now = peakStep els h now)
   \<and> renderMixerMeter (Some (1 / 5)) (Some \<lparr>peak = None, peakTime = None\<rparr>) 20 100 0
        = (Some \<lparr>peak = Some 10, peakTime = Some 0\<rparr>, Some 1)
   \<and> renderMixerMeter (Some (1 / 10)) (Some \<lparr>peak = Some 10, peakTime = Some 0\<rparr>) 20 100 700
        = (Some \<lparr>peak = Some 10, peakTime = Some 0\<rparr>, Some (1 - 50 / 350))
   \<and> renderMixerMeter (Some (1 / 10)) (Some \<lparr>peak = Some 10, peakTime = Some 0\<rparr>) 20 100 1100
        = (Some \<lparr>peak = Some 0, peakTime = Some 1100\<rparr>, None)"
proof (intro conjI allI impI)
  assume "peak els = None \<or> peak els = Some 0 \<or> (\<exists>p. peak els = Some p \<and> p < h)"
  then show "peakStep els h now =
        (if 1 \<le> h then (els\<lparr>peak := Some h, peakTime := Some now\<rparr>, Some 1)
         else (els\<lparr>peak := Some 0, peakTime := Some now\<rparr>, None))"
    by (auto simp: peakStep_def)
next
  fix p t
  assume a: "peak els = Some p \<and> peakTime els = Some t \<and> 1 \<le> p \<and> h \<le> p" "now - t < 1000"
  then show "peakStep els h now =
              (els, Some (if now - t < 650 then 1 else 1 - real_of_int (now - t - 650) / 350))"
    by (auto simp: peakStep_def)
next
  fix p t
  assume a: "peak els = Some p \<and> peakTime els = Some t \<and> 1 \<le> p \<and> h \<le> p" "1000 \<le> now - t"
  then show "peakStep els h now = (els\<lparr>peak := Some 0, peakTime := Some now\<rparr>, None)"
    by (auto simp: peakStep_def)
next
  fix els' :: meter
  assume "peak els' = peak els \<and> peakTime els' = peakTime els"
  then have "els' = els" by simp
  then show "peakStep els' h now = peakStep els h now" by simp
next
  show "renderMixerMeter (Some (1 / 5)) (Some \<lparr>peak = None, peakTime = None\<rparr>) 20 100 0
        = (Some \<lparr>peak = Some 10, peakTime = Some 0\<rparr>, Some 1)"
    by (simp add: renderMixerMeter_def rectCountOf_fifth peakStep_def)
next
  show "renderMixerMeter (Some (1 / 10)) (Some \<lparr>peak = Some 10, peakTime = Some 0\<rparr>) 20 100 700
        = (Some \<lparr>peak = Some 10, peakTime = Some 0\<rparr>, Some (1 - 50 / 350))"
    by (simp add: renderMixerMeter_def rectCountOf_tenth peakStep_def)
next
  show "renderMixerMeter (Some (1 / 10)) (Some \<lparr>peak = Some 10, peakTime = Some 0\<rparr>) 20 100 1100
        = (Some \<lparr>peak = Some 0, peakTime = Some 1100\<rparr>, None)"
    by (simp add: renderMixerMeter_def rectCountOf_tenth peakStep_def)
qed


text \<open>
  Ticks with a current height of 4: at 800 ms and at 1000 ms on a peak of 10 stored at
  time 0, and at 800 ms after a reset.
\<close>

theorem peakStep_rule_witness:
  "peakStep \<lparr>peak = Some 10, peakTime = Some 0\<rparr> 4 800
     = (\<lparr>peak = Some 10, peakTime = Some 0\<rparr>, Some (4 / 7))
   \<and> peakStep \<lparr>peak = Some 0, peakTime = Some 0\<rparr> 4 800
     = (\<lparr>peak = Some 4, peakTime = Some 800\<rparr>, Some 1)
   \<and> peakStep \<lparr>peak = Some 10, peakTime = Some 0\<rparr> 4 1000
     = (\<lparr>peak = Some 0, peakTime = Some 1000\<rparr>, None)"
proof (intro conjI)
  show "peakStep \<lparr>peak = Some 10, peakTime = Some 0\<rparr> 4 800
     = (\<lparr>peak = Some 10, peakTime = Some 0\<rparr>, Some (4 / 7))"
    using peakStep_rule [of "\<lparr>peak = Some 10, peakTime = Some 0\<rparr>" 4 800,
        THEN conjunct2, THEN conjunct1, rule_format, of 10 0, THEN conjunct1]
    by simp
  show "peakStep \<lparr>peak = Some 0, peakTime = Some 0\<rparr> 4 800
     = (\<lparr>peak = Some 4, peakTime = Some 800\<rparr>, Some 1)"
    using peakStep_rule [of "\<lparr>peak = Some 0, peakTime = Some 0\<rparr>" 4 800, THEN conjunct1]
    by simp
  show "peakStep \<lparr>peak = Some 10, peakTime = Some 0\<rparr> 4 1000
     = (\<lparr>peak = Some 0, peakTime = Some 1000\<rparr>, None)"
    using peakStep_rule [of "\<lparr>peak = Some 10, peakTime = Some 0\<rparr>" 4 1000,
        THEN conjunct2, THEN conjunct1, rule_format, of 10 0, THEN conjunct2]
    by simp
qed

section \<open>The profile store\<close>

text \<open>
  Claim C7.  Importing a document whose type tag is not \<open>audioProfile\<close> throws before
  anything is written: the manager (heap, stored profiles, current profile) is the same
  afterwards, and the caller catches the exception.
\<close>

theorem loadProfileFile_wrong_type:
  assumes "fileType obj \<noteq> Some ''audioProfile''"
  shows "loadProfileFile today obj m = (Some InvalidProfileType, m)
       \<and> importFile today obj m = (True, m)"
  using assms by (simp add: loadProfileFile_def importFile_def)

text \<open>
  A document tagged \<open>audioProfiles\<close> is rejected; the same profiles under the right tag
  are appended to the store.
\<close>

theorem loadProfileFile_wrong_type_witness:
  "loadProfileFile ''Tue Nov 03 2026''
     \<lparr>fileType = Some ''audioProfiles'',
      fileProfiles = [\<lparr>objId = None, objLabel = ''Bass'', objEqualizerNodes = [], objMixerChannels = []\<rparr>]\<rparr>
     \<lparr>heap = [], profiles = [], currentProfile = None\<rparr>
   = (Some InvalidProfileType, \<lparr>heap = [], profiles = [], currentProfile = None\<rparr>)
   \<and> profiles (snd (loadProfileFile ''Tue Nov 03 2026''
     \<lparr>fileType = Some ''audioProfile'',
      fileProfiles = [\<lparr>objId = None, objLabel = ''Bass'', objEqualizerNodes = [], objMixerChannels = []\<rparr>]\<rparr>
     \<lparr>heap = [], profiles = [], currentProfile = None\<rparr>)) = [2]"
  using loadProfileFile_wrong_type
    [of "\<lparr>fileType = Some ''audioProfiles'',
      fileProfiles = [\<lparr>objId = None, objLabel = ''Bass'', objEqualizerNodes = [], objMixerChannels = []\<rparr>]\<rparr>"
     "''Tue Nov 03 2026''" "\<lparr>heap = [], profiles = [], currentProfile = None\<rparr>"]
  by (simp add: loadProfileFile_def loadProfile_def fromObj_def alloc_def getNextProfileID_def)

lemma indexOf_Some_less: "indexOf xs x = Some i \<Longrightarrow> i < length xs"
  by (induction xs arbitrary: i) (auto split: if_splits)

lemma newProfile_profiles: "profiles (newProfile m) = profiles m @ [length (heap m) + 2]"
  by (simp add: newProfile_def newAudioProfile_def alloc_def addProfile_def)

lemma nextFreeId_Nil: "nextFreeId [] i = i"
  by (simp add: nextFreeId.simps [of "[]" i])

lemma showInt_1: "showInt 1 = ''1''"
proof -
  have "digits 1 = ''1''" by (subst digits.simps) simp
  then show ?thesis by (simp add: showInt_def)
qed

lemma newProfile_empty_store:
  assumes "profiles m = []"
  shows "toObj (heap (newProfile m)) (length (heap m) + 2)
           = Some \<lparr>objId = Some 1, objLabel = ''Profile 1'',
                   objEqualizerNodes = [], objMixerChannels = []\<rparr>"
  using assms
  by (simp add: newProfile_def newAudioProfile_def alloc_def addProfile_def getNextProfileID_def
      nextFreeId_Nil showInt_1 toObj_def lookup_def arrayAt_def nth_append)

text \<open>
  Claim C8.  After \<^verbatim>\<open>deleteProfile\<close> the store holds at least one profile, whatever it
  held before, and the call does not throw.  When the deleted profile was the only one,
  the store afterwards holds exactly one profile, an object created by the call (it lies
  beyond the heap of before), with id 1, the label
  \<open>Profile 1\<close>, no equalizer nodes and no mixer channels.
\<close>

theorem deleteProfile_never_empty:
  "fst (deleteProfile p m) = None
   \<and> 1 \<le> length (profiles (snd (deleteProfile p m)))
   \<and> (profiles m = [p] \<longrightarrow>
        profiles (snd (deleteProfile p m)) = [length (heap m) + 2]
        \<and> toObj (heap (snd (deleteProfile p m))) (length (heap m) + 2)
            = Some \<lparr>objId = Some 1, objLabel = ''Profile 1'',
                    objEqualizerNodes = [], objMixerChannels = []\<rparr>)"
proof -
  define index where "index = indexOf (profiles m) p"
  define m1 where "m1 = (case index of
                  Some i \<Rightarrow> m\<lparr>profiles := take i (profiles m) @ drop (Suc i) (profiles m)\<rparr>
                | None \<Rightarrow> m)"
  define m2 where "m2 = (if length (profiles m1) = 0 then newProfile m1 else m1)"
  define selected where "selected = (case index of Some i \<Rightarrow> i - 1 | None \<Rightarrow> 0)"
  have del: "deleteProfile p m = (if selected < length (profiles m2) then (None, m2) else (Some TypeError, m2))"
    by (simp add: deleteProfile_def Let_def index_def m1_def m2_def selected_def)
  have nonempty: "1 \<le> length (profiles m2)"
    by (simp add: m2_def newProfile_profiles Suc_le_eq)
  then have pos: "0 < length (profiles m2)" by linarith
  have len1: "length (profiles m1) = length (profiles m) - 1" if "index = Some i" for i
  proof -
    have "i < length (profiles m)" using that indexOf_Some_less by (simp add: index_def)
    then show ?thesis using that by (simp add: m1_def)
  qed
  have sel: "selected < length (profiles m2)"
  proof (cases index)
    case None
    then show ?thesis using pos by (simp add: selected_def)
  next
    case (Some i)
    have i: "i < length (profiles m)" using Some indexOf_Some_less by (simp add: index_def)
    show ?thesis
    proof (cases "length (profiles m1) = 0")
      case True
      with len1 [OF Some] i have "i = 0" by simp
      with Some pos show ?thesis by (simp add: selected_def)
    next
      case False
      then have "length (profiles m2) = length (profiles m) - 1"
        using len1 [OF Some] by (simp add: m2_def)
      with False len1 [OF Some] i Some show ?thesis by (simp add: selected_def)
    qed
  qed
  have res: "deleteProfile p m = (None, m2)" using del sel by simp
  have last: "profiles m2 = [length (heap m) + 2]
        \<and> toObj (heap m2) (length (heap m) + 2)
            = Some \<lparr>objId = Some 1, objLabel = ''Profile 1'',
                    objEqualizerNodes = [], objMixerChannels = []\<rparr>"
    if only: "profiles m = [p]"
  proof -
    have "index = Some 0" using only by (simp add: index_def)
    then have m1: "profiles m1 = []" "heap m1 = heap m" using only by (simp_all add: m1_def)
    then have m2: "m2 = newProfile m1" by (simp add: m2_def)
    have a: "profiles m2 = [length (heap m) + 2]"
      using m1 by (simp add: m2 newProfile_profiles)
    have b: "toObj (heap m2) (length (heap m) + 2)
            = Some \<lparr>objId = Some 1, objLabel = ''Profile 1'',
                    objEqualizerNodes = [], objMixerChannels = []\<rparr>"
      using newProfile_empty_store [OF m1(1)] m1(2) by (simp add: m2)
    show ?thesis using a b by simp
  qed
  show ?thesis using res nonempty last by simp
qed

text \<open>Deleting the only profile of a store.\<close>

theorem deleteProfile_never_empty_witness:
  "profiles (snd (deleteProfile 2
     \<lparr>heap = [ArrayCell [], ArrayCell [], ProfileCell (Some 1) ''Profile 1'' 0 1],
      profiles = [2], currentProfile = None\<rparr>)) = [5]
   \<and> toObj (heap (snd (deleteProfile 2
     \<lparr>heap = [ArrayCell [], ArrayCell [], ProfileCell (Some 1) ''Profile 1'' 0 1],
      profiles = [2], currentProfile = None\<rparr>))) 5
     = Some \<lparr>objId = Some 1, objLabel = ''Profile 1'', objEqualizerNodes = [], objMixerChannels = []\<rparr>"
  using deleteProfile_never_empty
    [of 2 "\<lparr>heap = [ArrayCell [], ArrayCell [], ProfileCell (Some 1) ''Profile 1'' 0 1],
      profiles = [2], currentProfile = None\<rparr>"]
  by (simp add: eval_nat_numeral)

section \<open>Gain curve\<close>

lemma curve_constant_pos: "0 < 40 / ln (10::real)"
  by simp

lemma symmetricalLogScaleY_nonneg:
  assumes "0 \<le> x" "0 < c"
  shows "symmetricalLogScaleY x c = log 10 (x / c + 1)"
proof (cases "x = 0")
  case True
  then show ?thesis by (simp add: symmetricalLogScaleY_def)
next
  case False
  with assms have "0 < x" by simp
  with assms(2) have "\<bar>x / c\<bar> = x / c" by simp
  with \<open>0 < x\<close> show ?thesis by (simp add: symmetricalLogScaleY_def)
qed

lemma symmetricalLogScaleY_nonpos:
  assumes "x \<le> 0" "0 < c"
  shows "symmetricalLogScaleY x c = - log 10 (- x / c + 1)"
proof (cases "x = 0")
  case True
  then show ?thesis by (simp add: symmetricalLogScaleY_def)
next
  case False
  with assms have neg: "x < 0" by simp
  with assms(2) have "x / c < 0" by (simp add: divide_neg_pos)
  then have "\<bar>x / c\<bar> = - (x / c)" by (rule abs_of_neg)
  then have "\<bar>x / c\<bar> = - x / c" by (simp only: minus_divide_left)
  with neg show ?thesis by (simp add: symmetricalLogScaleY_def)
qed

lemma symmetricalLogScaleY_sign:
  assumes "0 < c"
  shows "0 \<le> x \<Longrightarrow> 0 \<le> symmetricalLogScaleY x c"
    and "x \<le> 0 \<Longrightarrow> symmetricalLogScaleY x c \<le> 0"
    and "0 < x \<Longrightarrow> 0 < symmetricalLogScaleY x c"
    and "x < 0 \<Longrightarrow> symmetricalLogScaleY x c < 0"
proof -
  show "0 \<le> symmetricalLogScaleY x c" if "0 \<le> x"
  proof -
    have "1 \<le> x / c + 1" using that assms by simp
    then have "0 \<le> log 10 (x / c + 1)" by simp
    then show ?thesis using that assms by (simp add: symmetricalLogScaleY_nonneg)
  qed
  show "symmetricalLogScaleY x c \<le> 0" if "x \<le> 0"
  proof -
    have "1 \<le> - x / c + 1" using that assms by (simp add: divide_nonpos_pos)
    then have "0 \<le> log 10 (- x / c + 1)" by simp
    then show ?thesis using that assms by (simp add: symmetricalLogScaleY_nonpos)
  qed
  show "0 < symmetricalLogScaleY x c" if "0 < x"
  proof -
    have "1 < x / c + 1" using that assms by simp
    then have "0 < log 10 (x / c + 1)" by simp
    then show ?thesis using that assms by (simp add: symmetricalLogScaleY_nonneg)
  qed
  show "symmetricalLogScaleY x c < 0" if "x < 0"
  proof -
    have "1 < - x / c + 1" using that assms by (simp add: divide_neg_pos)
    then have "0 < log 10 (- x / c + 1)" by simp
    then show ?thesis using that assms by (simp add: symmetricalLogScaleY_nonpos)
  qed
qed

lemma symmetricalLogScaleY_strict_mono:
  assumes c: "0 < c" and less: "x < x'"
  shows "symmetricalLogScaleY x c < symmetricalLogScaleY x' c"
proof (cases "0 \<le> x")
  case True
  then have "0 \<le> x'" using less by simp
  have "x / c + 1 < x' / c + 1" using less c by (simp add: divide_strict_right_mono)
  moreover have "0 < x / c + 1" using True c by (simp add: add_nonneg_pos)
  ultimately have "log 10 (x / c + 1) < log 10 (x' / c + 1)" by simp
  then show ?thesis
    using True \<open>0 \<le> x'\<close> c by (simp add: symmetricalLogScaleY_nonneg)
next
  case False
  then have neg: "x < 0" by simp
  show ?thesis
  proof (cases "0 \<le> x'")
    case True
    have "symmetricalLogScaleY x c < 0" using neg by (rule symmetricalLogScaleY_sign(4) [OF c])
    moreover have "0 \<le> symmetricalLogScaleY x' c" using True by (rule symmetricalLogScaleY_sign(1) [OF c])
    ultimately show ?thesis by simp
  next
    case False
    then have neg': "x' < 0" by simp
    have "- x' / c + 1 < - x / c + 1" using less c by (simp add: divide_strict_right_mono)
    moreover have "0 < - x' / c + 1" using neg' c by (simp add: add_nonneg_pos)
    ultimately have "log 10 (- x' / c + 1) < log 10 (- x / c + 1)" by simp
    then show ?thesis
      using neg neg' c by (simp add: symmetricalLogScaleY_nonpos)
  qed
qed

lemma symmetricalLogScaleY_mono:
  assumes "0 < c" "x \<le> x'"
  shows "symmetricalLogScaleY x c \<le> symmetricalLogScaleY x' c"
proof (cases "x = x'")
  case True
  then show ?thesis by simp
next
  case False
  with assms(2) have "x < x'" by simp
  with assms(1) show ?thesis by (simp add: symmetricalLogScaleY_strict_mono less_imp_le)
qed

lemma symmetricalLogScaleX_inverse:
  assumes c: "0 < c"
  shows "symmetricalLogScaleX (symmetricalLogScaleY x c) c = x"
proof -
  consider "x = 0" | "0 < x" | "x < 0" by linarith
  then show ?thesis
  proof cases
    case 1
    then show ?thesis by (simp add: symmetricalLogScaleX_def symmetricalLogScaleY_def)
  next
    case 2
    then have y: "symmetricalLogScaleY x c = log 10 (x / c + 1)"
      using c by (simp add: symmetricalLogScaleY_nonneg)
    have pos: "0 < log 10 (x / c + 1)"
      using symmetricalLogScaleY_sign(3) [OF c 2] y by simp
    have arg: "0 < x / c + 1" using 2 c by (simp add: add_pos_pos)
    have "10 powr log 10 (x / c + 1) = x / c + 1" using arg by simp
    then have "symmetricalLogScaleX (log 10 (x / c + 1)) c = c * (x / c + 1 - 1)"
      using pos by (simp add: symmetricalLogScaleX_def)
    also have "\<dots> = x" using c by simp
    finally show ?thesis by (simp add: y)
  next
    case 3
    then have y: "symmetricalLogScaleY x c = - log 10 (- x / c + 1)"
      using c by (simp add: symmetricalLogScaleY_nonpos)
    have neg: "- log 10 (- x / c + 1) < 0"
      using symmetricalLogScaleY_sign(4) [OF c 3] y by simp
    have arg: "0 < - x / c + 1" using 3 c by (simp add: add_pos_pos)
    have "10 powr log 10 (- x / c + 1) = - x / c + 1" using arg by simp
    then have "symmetricalLogScaleX (- log 10 (- x / c + 1)) c = - c * (- x / c + 1 - 1)"
      using neg by (simp add: symmetricalLogScaleX_def)
    also have "\<dots> = x" using c by simp
    finally show ?thesis by (simp add: y)
  qed
qed

lemma curve_span_pos:
  "symmetricalLogScaleY (- 50) (40 / ln 10) < symmetricalLogScaleY 10 (40 / ln 10)"
  by (rule symmetricalLogScaleY_strict_mono [OF curve_constant_pos]) simp

lemma clamp_mono: "v \<le> w \<Longrightarrow> clamp v lo hi \<le> clamp w lo hi"
  by (simp add: clamp_def min_def max_def)

lemma clamp_inside: "lo \<le> v \<Longrightarrow> v \<le> hi \<Longrightarrow> clamp v lo hi = v"
  by (simp add: clamp_def)

lemma mixerDBToPositionRatio_above:
  assumes "- 50 < db"
  shows "mixerDBToPositionRatio db =
    clamp ((symmetricalLogScaleY 10 (40 / ln 10) - symmetricalLogScaleY db (40 / ln 10))
           / (symmetricalLogScaleY 10 (40 / ln 10) - symmetricalLogScaleY (- 50) (40 / ln 10))) 0 1"
  using assms by (simp add: mixerDBToPositionRatio_def Let_def)

lemma mixerDBToPositionRatio_bounds:
  "0 \<le> mixerDBToPositionRatio db \<and> mixerDBToPositionRatio db \<le> 1"
proof (cases "db \<le> - 50")
  case True
  then show ?thesis by (simp add: mixerDBToPositionRatio_def)
next
  case False
  then have "- 50 < db" by simp
  then show ?thesis
    by (simp add: mixerDBToPositionRatio_above clamp_def)
qed

lemma mixerDBToPositionRatio_antimono:
  assumes "db1 \<le> db2"
  shows "mixerDBToPositionRatio db2 \<le> mixerDBToPositionRatio db1"
proof (cases "db1 \<le> - 50")
  case True
  then have "mixerDBToPositionRatio db1 = 1" by (simp add: mixerDBToPositionRatio_def)
  then show ?thesis using mixerDBToPositionRatio_bounds [of db2] by simp
next
  case False
  then have lo1: "- 50 < db1" by simp
  with assms have lo2: "- 50 < db2" by simp
  let ?c = "40 / ln (10::real)"
  let ?maxY = "symmetricalLogScaleY 10 ?c"
  let ?minY = "symmetricalLogScaleY (- 50) ?c"
  have span: "0 < ?maxY - ?minY" using curve_span_pos by simp
  have "symmetricalLogScaleY db1 ?c \<le> symmetricalLogScaleY db2 ?c"
    using curve_constant_pos assms by (rule symmetricalLogScaleY_mono)
  then have "?maxY - symmetricalLogScaleY db2 ?c \<le> ?maxY - symmetricalLogScaleY db1 ?c"
    by simp
  then have "(?maxY - symmetricalLogScaleY db2 ?c) / (?maxY - ?minY)
               \<le> (?maxY - symmetricalLogScaleY db1 ?c) / (?maxY - ?minY)"
    using span by (rule divide_right_mono [OF _ less_imp_le])
  then have "clamp ((?maxY - symmetricalLogScaleY db2 ?c) / (?maxY - ?minY)) 0 1
               \<le> clamp ((?maxY - symmetricalLogScaleY db1 ?c) / (?maxY - ?minY)) 0 1"
    by (rule clamp_mono)
  then show ?thesis
    by (simp only: mixerDBToPositionRatio_above [OF lo1] mixerDBToPositionRatio_above [OF lo2])
qed

text \<open>
  Claim C10.  \<^verbatim>\<open>mixerDBToPositionRatio\<close> returns a value between 0 and 1 for every
  decibel value, and it is non-increasing: a larger decibel value never gets a larger
  ratio.  (This holds for all reals, in particular for the values from -50 to 10.)
\<close>

theorem mixerDBToPositionRatio_range_antimono:
  "0 \<le> mixerDBToPositionRatio db \<and> mixerDBToPositionRatio db \<le> 1
   \<and> (db1 \<le> db2 \<longrightarrow> mixerDBToPositionRatio db2 \<le> mixerDBToPositionRatio db1)"
  using mixerDBToPositionRatio_bounds [of db] mixerDBToPositionRatio_antimono [of db1 db2]
  by blast

text \<open>The position of 0 dB is not below the position of -50 dB, which is 1.\<close>

theorem mixerDBToPositionRatio_range_antimono_witness:
  "(- 50 :: real) \<le> 0 \<and> mixerDBToPositionRatio 0 \<le> 1 \<and> mixerDBToPositionRatio (- 50) = 1"
  using mixerDBToPositionRatio_range_antimono [of 0 "- 50" 0]
  by (simp add: mixerDBToPositionRatio_def)

lemma mixer_roundtrip_inside:
  assumes lo: "- 50 < db" and hi: "db \<le> 10"
  shows "mixerPositionRatioToDB (mixerDBToPositionRatio db) = Num db"
proof -
  let ?c = "40 / ln (10::real)"
  let ?maxY = "symmetricalLogScaleY 10 ?c"
  let ?minY = "symmetricalLogScaleY (- 50) ?c"
  let ?y = "symmetricalLogScaleY db ?c"
  let ?r = "(?maxY - ?y) / (?maxY - ?minY)"
  have span: "0 < ?maxY - ?minY" using curve_span_pos by simp
  have y_hi: "?y \<le> ?maxY" using curve_constant_pos hi by (rule symmetricalLogScaleY_mono)
  have y_lo: "?minY < ?y" using curve_constant_pos lo by (rule symmetricalLogScaleY_strict_mono)
  have r0: "0 \<le> ?r" using y_hi span by simp
  have r1: "?r < 1" using y_lo span by simp
  have ratio: "mixerDBToPositionRatio db = ?r"
    using r0 r1 by (simp only: mixerDBToPositionRatio_above [OF lo] clamp_inside)
  have same_y: "?maxY - ?r * (?maxY - ?minY) = ?y" using span by simp
  have "mixerPositionRatioToDB ?r = Num (clamp (symmetricalLogScaleX (?maxY - ?r * (?maxY - ?minY)) ?c) (- 50) 10)"
    using r1 by (simp add: mixerPositionRatioToDB_def Let_def)
  also have "\<dots> = Num (clamp (symmetricalLogScaleX ?y ?c) (- 50) 10)"
    by (simp only: same_y)
  also have "\<dots> = Num (clamp db (- 50) 10)"
    by (simp only: symmetricalLogScaleX_inverse [OF curve_constant_pos])
  also have "\<dots> = Num db"
    using lo hi by (simp add: clamp_inside)
  finally show ?thesis by (simp only: ratio)
qed

text \<open>
  Claim C2, as amended.  In exact arithmetic the round trip through the slider position
  gives back every decibel value above -50 and up to 10.  Every ratio of 1 or more maps
  to \<open>-Infinity\<close> and every decibel value of -50 or less maps to the ratio 1, so the
  round trip of a value of -50 or less is \<open>-Infinity\<close>.
\<close>

theorem mixer_roundtrip:
  "(- 50 < db \<and> db \<le> 10 \<longrightarrow> mixerPositionRatioToDB (mixerDBToPositionRatio db) = Num db)
   \<and> (1 \<le> ratio \<longrightarrow> mixerPositionRatioToDB ratio = MinusInfinity)
   \<and> (low \<le> - 50 \<longrightarrow> mixerDBToPositionRatio low = 1
         \<and> mixerPositionRatioToDB (mixerDBToPositionRatio low) = MinusInfinity)"
  using mixer_roundtrip_inside [of db]
  by (simp add: mixerPositionRatioToDB_def mixerDBToPositionRatio_def)

text \<open>The round trip of 0 dB, the ratio 1 and the decibel value -60.\<close>

theorem mixer_roundtrip_witness:
  "mixerPositionRatioToDB (mixerDBToPositionRatio 0) = Num 0
   \<and> mixerPositionRatioToDB 1 = MinusInfinity
   \<and> mixerDBToPositionRatio (- 60) = 1"
  using mixer_roundtrip [of 0 1 "- 60"] by simp

text \<open>
  Claim C2 as stated fails at -50 dB, the lower end of the range: the position is 1 and
  the way back from 1 is \<open>-Infinity\<close>, not -50.
\<close>

theorem mixer_roundtrip_low_end_counterexample:
  "mixerPositionRatioToDB (mixerDBToPositionRatio (- 50)) = MinusInfinity
   \<and> mixerPositionRatioToDB (mixerDBToPositionRatio (- 50)) \<noteq> Num (- 50)"
  by (simp add: mixerPositionRatioToDB_def mixerDBToPositionRatio_def)

section \<open>Frequency response of the equalizer\<close>

lemma fillFrequencies_nth:
  assumes "bufferLength \<le> length arr"
  shows "length (fillFrequencies step maxFreq i bufferLength arr) = length arr
       \<and> (\<forall>j<length arr. fillFrequencies step maxFreq i bufferLength arr ! j =
             (if i \<le> j \<and> j < bufferLength
              then min (10 powr (real j * step + log 10 20)) maxFreq else arr ! j))"
  using assms
proof (induction step maxFreq i bufferLength arr rule: fillFrequencies.induct)
  case (1 step maxFreq i bufferLength arr)
  show ?case
  proof (cases "i < bufferLength")
    case False
    then show ?thesis by (auto simp: fillFrequencies.simps [of step maxFreq i bufferLength arr])
  next
    case True
    let ?arr1 = "arr[i := min (10 powr (real i * step + log 10 20)) maxFreq]"
    have ih: "length (fillFrequencies step maxFreq (Suc i) bufferLength ?arr1) = length ?arr1
       \<and> (\<forall>j<length ?arr1. fillFrequencies step maxFreq (Suc i) bufferLength ?arr1 ! j =
             (if Suc i \<le> j \<and> j < bufferLength
              then min (10 powr (real j * step + log 10 20)) maxFreq else ?arr1 ! j))"
      using "1.IH" [OF True] "1.prems" by simp
    have unfold: "fillFrequencies step maxFreq i bufferLength arr
                    = fillFrequencies step maxFreq (Suc i) bufferLength ?arr1"
      using True by (simp add: fillFrequencies.simps [of step maxFreq i bufferLength arr])
    show ?thesis
    proof (intro conjI allI impI)
      show "length (fillFrequencies step maxFreq i bufferLength arr) = length arr"
        using ih unfold by simp
    next
      fix j assume j: "j < length arr"
      then have "fillFrequencies step maxFreq (Suc i) bufferLength ?arr1 ! j =
             (if Suc i \<le> j \<and> j < bufferLength
              then min (10 powr (real j * step + log 10 20)) maxFreq else ?arr1 ! j)"
        using ih by simp
      then show "fillFrequencies step maxFreq i bufferLength arr ! j =
             (if i \<le> j \<and> j < bufferLength
              then min (10 powr (real j * step + log 10 20)) maxFreq else arr ! j)"
        using True j "1.prems" unfolding unfold
        by (cases "j = i") (auto simp: nth_list_update)
    qed
  qed
qed

lemma addResponse_nth:
  assumes "bufferLength \<le> length db"
  shows "length (addResponse mag i bufferLength db) = length db
       \<and> (\<forall>j<length db. addResponse mag i bufferLength db ! j =
             (if i \<le> j \<and> j < bufferLength
              then addNumber (db ! j) (times20 (log10js (mag ! j))) else db ! j))"
  using assms
proof (induction mag i bufferLength db rule: addResponse.induct)
  case (1 mag i bufferLength db)
  show ?case
  proof (cases "i < bufferLength")
    case False
    then show ?thesis by (auto simp: addResponse.simps [of mag i bufferLength db])
  next
    case True
    let ?db1 = "db[i := addNumber (db ! i) (times20 (log10js (mag ! i)))]"
    have ih: "length (addResponse mag (Suc i) bufferLength ?db1) = length ?db1
       \<and> (\<forall>j<length ?db1. addResponse mag (Suc i) bufferLength ?db1 ! j =
             (if Suc i \<le> j \<and> j < bufferLength
              then addNumber (?db1 ! j) (times20 (log10js (mag ! j))) else ?db1 ! j))"
      using "1.IH" [OF True] "1.prems" by simp
    have unfold: "addResponse mag i bufferLength db = addResponse mag (Suc i) bufferLength ?db1"
      using True by (simp add: addResponse.simps [of mag i bufferLength db])
    show ?thesis
    proof (intro conjI allI impI)
      show "length (addResponse mag i bufferLength db) = length db"
        using ih unfold by simp
    next
      fix j assume j: "j < length db"
      then have "addResponse mag (Suc i) bufferLength ?db1 ! j =
             (if Suc i \<le> j \<and> j < bufferLength
              then addNumber (?db1 ! j) (times20 (log10js (mag ! j))) else ?db1 ! j)"
        using ih by simp
      then show "addResponse mag i bufferLength db ! j =
             (if i \<le> j \<and> j < bufferLength
              then addNumber (db ! j) (times20 (log10js (mag ! j))) else db ! j)"
        using True j "1.prems" unfolding unfold
        by (cases "j = i") (auto simp: nth_list_update)
    qed
  qed
qed

lemma forEachNode_nth:
  assumes "length db = n" "length freq = n" "j < n"
  shows "length (forEachNode nodes freq n db) = n
       \<and> forEachNode nodes freq n db ! j =
           foldl addNumber (db ! j) (map (\<lambda>node. times20 (log10js (node (freq ! j)))) nodes)"
  using assms
proof (induction nodes arbitrary: db)
  case Nil
  then show ?case by simp
next
  case (Cons node nodes)
  let ?db1 = "addResponse (getFrequencyResponse node freq) 0 n db"
  have step: "length ?db1 = length db
       \<and> (\<forall>k<length db. ?db1 ! k =
             (if 0 \<le> k \<and> k < n
              then addNumber (db ! k) (times20 (log10js (getFrequencyResponse node freq ! k))) else db ! k))"
    using Cons.prems(1) by (intro addResponse_nth) simp
  then have len: "length ?db1 = n" using Cons.prems(1) by simp
  have val: "?db1 ! j = addNumber (db ! j) (times20 (log10js (node (freq ! j))))"
    using step Cons.prems by (simp add: getFrequencyResponse_def)
  from Cons.IH [OF len Cons.prems(2) Cons.prems(3)] val
  show ?case by simp
qed

lemma foldl_addNumber_positive:
  assumes "\<forall>x\<in>set xs. 0 < x"
  shows "foldl addNumber (Num a) (map (\<lambda>x. times20 (log10js x)) xs)
           = Num (a + (\<Sum>x\<leftarrow>xs. 20 * log 10 x))"
  using assms
proof (induction xs arbitrary: a)
  case Nil
  show ?case by simp
next
  case (Cons x xs)
  then have "0 < x" by simp
  then have "addNumber (Num a) (times20 (log10js x)) = Num (a + 20 * log 10 x)"
    by (simp add: log10js_def)
  with Cons show ?case by (simp add: add.assoc)
qed

text \<open>
  Claim C3.  The response synthesized for a chain of filter stages has \<open>sampleCount\<close>
  values.  Sample \<open>i\<close> is taken at the frequency
  \<open>min (10 powr (i * step + log 10 20)) nyquist\<close> with
  \<open>step = log 10 (nyquist / 20) / sampleCount\<close> and \<open>nyquist = sampleRate / 2\<close>, and
  its value is the sum over the stages, in chain order, of 20 times \<^verbatim>\<open>Math.log10\<close> of the
  stage's magnitude at that frequency: a sum of numbers when all magnitudes are positive,
  and 0 dB for the empty chain.
\<close>

theorem equalizerDbResponse_samples:
  assumes i: "i < sampleCount"
  shows "length (fst (equalizerDbResponse sampleRate sampleCount nodes)) = sampleCount
       \<and> length (snd (equalizerDbResponse sampleRate sampleCount nodes)) = sampleCount
       \<and> fst (equalizerDbResponse sampleRate sampleCount nodes) ! i =
           min (10 powr (real i * (log 10 (sampleRate / 2 / 20) / real sampleCount) + log 10 20))
               (sampleRate / 2)
       \<and> snd (equalizerDbResponse sampleRate sampleCount nodes) ! i =
           foldl addNumber (Num 0)
             (map (\<lambda>node. times20 (log10js
                     (node (fst (equalizerDbResponse sampleRate sampleCount nodes) ! i)))) nodes)
       \<and> ((\<forall>node\<in>set nodes. 0 < node (fst (equalizerDbResponse sampleRate sampleCount nodes) ! i)) \<longrightarrow>
           snd (equalizerDbResponse sampleRate sampleCount nodes) ! i =
             Num (\<Sum>node\<leftarrow>nodes.
                    20 * log 10 (node (fst (equalizerDbResponse sampleRate sampleCount nodes) ! i))))
       \<and> (nodes = [] \<longrightarrow> snd (equalizerDbResponse sampleRate sampleCount nodes) ! i = Num 0)"
proof -
  define maxFreq where "maxFreq = sampleRate / 2"
  define step where "step = log 10 (maxFreq / 20) / real sampleCount"
  define freq where "freq = fillFrequencies step maxFreq 0 sampleCount (replicate sampleCount 0)"
  define db where "db = forEachNode nodes freq sampleCount (replicate sampleCount (Num 0))"
  have res: "equalizerDbResponse sampleRate sampleCount nodes = (freq, db)"
    by (simp add: equalizerDbResponse_def Let_def maxFreq_def step_def freq_def db_def)
  have fill: "length freq = length (replicate sampleCount (0::real))
       \<and> (\<forall>j<length (replicate sampleCount (0::real)). freq ! j =
             (if 0 \<le> j \<and> j < sampleCount
              then min (10 powr (real j * step + log 10 20)) maxFreq
              else replicate sampleCount 0 ! j))"
    unfolding freq_def by (rule fillFrequencies_nth) simp
  then have freq_len: "length freq = sampleCount" by simp
  have freq_i: "freq ! i = min (10 powr (real i * step + log 10 20)) maxFreq"
    using fill i by simp
  have each: "length db = sampleCount
       \<and> db ! i = foldl addNumber (replicate sampleCount (Num 0) ! i)
                     (map (\<lambda>node. times20 (log10js (node (freq ! i)))) nodes)"
    unfolding db_def by (rule forEachNode_nth) (simp_all add: freq_len i)
  then have db_len: "length db = sampleCount" by simp
  have db_i: "db ! i = foldl addNumber (Num 0) (map (\<lambda>node. times20 (log10js (node (freq ! i)))) nodes)"
    using each i by simp
  have positive: "db ! i = Num (\<Sum>node\<leftarrow>nodes. 20 * log 10 (node (freq ! i)))"
    if pos: "\<forall>node\<in>set nodes. 0 < node (freq ! i)"
  proof -
    have "\<forall>x\<in>set (map (\<lambda>node. node (freq ! i)) nodes). 0 < x" using pos by simp
    from foldl_addNumber_positive [OF this, of 0]
    show ?thesis by (simp add: db_i comp_def)
  qed
  have empty: "db ! i = Num 0" if "nodes = []"
    using that by (simp add: db_i)
  show ?thesis
    unfolding res fst_conv snd_conv
    using freq_len db_len freq_i db_i positive empty
    by (simp add: step_def maxFreq_def)
qed

text \<open>
  Two samples at a sample rate of 44100 Hz: the first is taken at 20 Hz; a single stage
  of magnitude 10 gives 20 dB and the empty chain gives 0 dB.
\<close>

theorem equalizerDbResponse_samples_witness:
  "fst (equalizerDbResponse 44100 2 []) ! 0 = 20
   \<and> snd (equalizerDbResponse 44100 2 [\<lambda>f. 10]) ! 0 = Num 20
   \<and> snd (equalizerDbResponse 44100 2 []) ! 1 = Num 0"
  using equalizerDbResponse_samples [of 0 2 44100 "[]"]
    equalizerDbResponse_samples [of 0 2 44100 "[\<lambda>f. 10]"]
    equalizerDbResponse_samples [of 1 2 44100 "[]"]
  by (simp add: log10js_def)

section \<open>Copies\<close>

lemma prefix_length:
  assumes "take (length h0) h = h0"
  shows "length h0 \<le> length h"
proof -
  have "length (take (length h0) h) = length h0" using assms by simp
  then show ?thesis by simp
qed

lemma lookup_prefix:
  assumes "take (length h0) h = h0" "lookup h0 r = Some c"
  shows "lookup h r = Some c"
proof -
  have r: "r < length h0" and c: "h0 ! r = c"
    using assms(2) by (auto simp: lookup_def split: if_splits)
  have "h ! r = take (length h0) h ! r" using r by simp
  then have "h ! r = c" using assms(1) c by simp
  moreover have "r < length h" using r prefix_length [OF assms(1)] by simp
  ultimately show ?thesis by (simp add: lookup_def)
qed

lemma allocAll_append:
  "allocAll cells h = ([length h..<length h + length cells], h @ cells)"
proof (induction cells arbitrary: h)
  case Nil
  show ?case by simp
next
  case (Cons c cells)
  have "length h < length h + length (c # cells)" by simp
  then have "[length h..<length h + length (c # cells)]
               = length h # [Suc (length h)..<length h + length (c # cells)]"
    by (rule upt_conv_Cons)
  then have "[length h..<length h + length (c # cells)]
               = length h # [Suc (length h)..<Suc (length h) + length cells]"
    by simp
  then show ?case using Cons [of "h @ [c]"] by (simp add: alloc_def)
qed

lemma those_map_Some: "those (map Some xs) = Some xs"
  by (induction xs) simp_all

lemma read_back:
  assumes "\<And>i. i < length xs \<Longrightarrow> f (a + i) = Some (xs ! i)"
  shows "those (map f [a..<a + length xs]) = Some xs"
proof -
  have "map f [a..<a + length xs] = map Some xs"
    by (rule nth_equalityI) (simp_all add: assms)
  then show ?thesis by (simp only: those_map_Some)
qed

lemma fromObj_append:
  "fromObj obj h =
     (length h + length (objEqualizerNodes obj) + length (objMixerChannels obj) + 2,
      h @ map NodeCell (objEqualizerNodes obj)
        @ [ArrayCell [length h..<length h + length (objEqualizerNodes obj)]]
        @ map ChannelCell (objMixerChannels obj)
        @ [ArrayCell [length h + length (objEqualizerNodes obj) + 1
                      ..<length h + length (objEqualizerNodes obj) + 1 + length (objMixerChannels obj)]]
        @ [ProfileCell (objId obj) (objLabel obj)
             (length h + length (objEqualizerNodes obj))
             (length h + length (objEqualizerNodes obj) + 1 + length (objMixerChannels obj))])"
  by (simp add: fromObj_def allocAll_append alloc_def)

lemma toObj_fromObj:
  "toObj (snd (fromObj obj h)) (fst (fromObj obj h)) = Some obj"
proof -
  let ?N = "objEqualizerNodes obj" and ?C = "objMixerChannels obj"
  let ?n = "length h + length ?N"
  let ?c = "?n + 1 + length ?C"
  let ?h' = "h @ map NodeCell ?N @ [ArrayCell [length h..<?n]] @ map ChannelCell ?C
               @ [ArrayCell [?n + 1..<?c]] @ [ProfileCell (objId obj) (objLabel obj) ?n ?c]"
  have res: "fromObj obj h = (?c + 1, ?h')" by (simp add: fromObj_append)
  have len: "length ?h' = ?c + 2" by simp
  have prof: "lookup ?h' (?c + 1) = Some (ProfileCell (objId obj) (objLabel obj) ?n ?c)"
    by (simp add: lookup_def nth_append)
  have narr: "arrayAt ?h' ?n = Some [length h..<?n]"
    by (simp add: arrayAt_def lookup_def nth_append)
  have carr: "arrayAt ?h' ?c = Some [?n + 1..<?c]"
    by (simp add: arrayAt_def lookup_def nth_append)
  have nodes: "those (map (nodeAt ?h') [length h..<?n]) = Some ?N"
  proof (rule read_back)
    fix i assume "i < length ?N"
    then show "nodeAt ?h' (length h + i) = Some (?N ! i)"
      by (simp add: nodeAt_def lookup_def nth_append)
  qed
  have channels: "those (map (channelAt ?h') [?n + 1..<?c]) = Some ?C"
  proof (rule read_back)
    fix i assume "i < length ?C"
    then show "channelAt ?h' (?n + 1 + i) = Some (?C ! i)"
      by (simp add: channelAt_def lookup_def nth_append)
  qed
  have "toObj ?h' (?c + 1) = Some \<lparr>objId = objId obj, objLabel = objLabel obj,
          objEqualizerNodes = ?N, objMixerChannels = ?C\<rparr>"
    by (simp only: toObj_def prof narr carr nodes channels option.case cell.case prod.case)
  then show ?thesis by (simp add: res)
qed

section \<open>The store is separated from the working objects\<close>

lemma separates_iff:
  "separates S h ps rs \<longleftrightarrow>
     (\<forall>a<length h. \<forall>r\<in>set (refsOf (h ! a)). r < length h \<and> ((a \<in> set S) = (r \<in> set S)))
     \<and> (\<forall>a\<in>set S. a < length h)
     \<and> set ps \<subseteq> set S
     \<and> (\<forall>r\<in>set rs. r < length h \<and> r \<notin> set S)"
proof -
  have "(\<forall>a\<in>set [0..<length h]. P a) \<longleftrightarrow> (\<forall>a<length h. P a)" for P
    by (simp add: Ball_def)
  then show ?thesis
    unfolding separates_def list_all_iff by (simp only: subset_eq)
qed

lemma separatesD:
  assumes "separates S h ps rs"
  shows "\<And>a x. a < length h \<Longrightarrow> x \<in> set (refsOf (h ! a)) \<Longrightarrow> x < length h"
    and "\<And>a x. a < length h \<Longrightarrow> x \<in> set (refsOf (h ! a)) \<Longrightarrow> (a \<in> set S) = (x \<in> set S)"
    and "\<And>a. a \<in> set S \<Longrightarrow> a < length h"
    and "set ps \<subseteq> set S"
    and "\<And>r. r \<in> set rs \<Longrightarrow> r < length h"
    and "\<And>r. r \<in> set rs \<Longrightarrow> r \<notin> set S"
  using assms unfolding separates_iff by blast+

lemma separatesI:
  assumes "\<And>a x. a < length h \<Longrightarrow> x \<in> set (refsOf (h ! a)) \<Longrightarrow> x < length h \<and> ((a \<in> set S) = (x \<in> set S))"
    and "\<And>a. a \<in> set S \<Longrightarrow> a < length h"
    and "set ps \<subseteq> set S"
    and "\<And>r. r \<in> set rs \<Longrightarrow> r < length h \<and> r \<notin> set S"
  shows "separates S h ps rs"
  unfolding separates_iff using assms by blast

lemma unchangedOn_iff:
  "unchangedOn S h h' \<longleftrightarrow> length h \<le> length h' \<and> (\<forall>a\<in>set S. h' ! a = h ! a)"
  by (simp add: unchangedOn_def list_all_iff)

lemma unchangedOn_refl: "unchangedOn S h h"
  by (simp add: unchangedOn_iff)

lemma unchangedOn_trans:
  assumes "unchangedOn S h h'" "unchangedOn S h' h''"
  shows "unchangedOn S h h''"
proof -
  have "length h \<le> length h''" using assms by (simp add: unchangedOn_iff)
  moreover have "h'' ! a = h ! a" if "a \<in> set S" for a
  proof -
    have "h'' ! a = h' ! a" using assms(2) that by (simp add: unchangedOn_iff)
    also have "\<dots> = h ! a" using assms(1) that by (simp add: unchangedOn_iff)
    finally show ?thesis .
  qed
  ultimately show ?thesis by (simp add: unchangedOn_iff)
qed

lemma separates_roots:
  assumes sep: "separates S h ps rs" and new: "\<forall>r\<in>set rs'. r < length h \<and> r \<notin> set S"
  shows "separates S h ps rs'"
proof (rule separatesI)
  fix a x assume "a < length h" "x \<in> set (refsOf (h ! a))"
  then show "x < length h \<and> ((a \<in> set S) = (x \<in> set S))"
    using separatesD(1,2) [OF sep] by blast
next
  fix a assume "a \<in> set S" then show "a < length h" by (rule separatesD(3) [OF sep])
next
  show "set ps \<subseteq> set S" by (rule separatesD(4) [OF sep])
next
  fix r assume "r \<in> set rs'" then show "r < length h \<and> r \<notin> set S" using new by blast
qed

lemma separates_profiles:
  assumes sep: "separates S h ps rs" and new: "set ps' \<subseteq> set S"
  shows "separates S h ps' rs"
proof (rule separatesI)
  fix a x assume "a < length h" "x \<in> set (refsOf (h ! a))"
  then show "x < length h \<and> ((a \<in> set S) = (x \<in> set S))"
    using separatesD(1,2) [OF sep] by blast
next
  fix a assume "a \<in> set S" then show "a < length h" by (rule separatesD(3) [OF sep])
next
  show "set ps' \<subseteq> set S" by (rule new)
next
  fix r assume "r \<in> set rs" then show "r < length h \<and> r \<notin> set S"
    using separatesD(5,6) [OF sep] by blast
qed

lemma lookup_SomeD: "lookup h a = Some c \<Longrightarrow> a < length h \<and> h ! a = c"
  by (simp add: lookup_def split: if_splits)

lemma separates_read:
  assumes sep: "separates S h ps rs" and cell: "lookup h a = Some c" and x: "x \<in> set (refsOf c)"
  shows "x < length h" and "(a \<in> set S) = (x \<in> set S)"
proof -
  from lookup_SomeD [OF cell] have a: "a < length h" and c: "h ! a = c" by simp_all
  from x c have x': "x \<in> set (refsOf (h ! a))" by simp
  show "x < length h" using a x' by (rule separatesD(1) [OF sep])
  show "(a \<in> set S) = (x \<in> set S)" using a x' by (rule separatesD(2) [OF sep])
qed

lemma separates_write:
  assumes sep: "separates S h ps rs"
    and side': "\<forall>x\<in>set (refsOf c). x < length h \<and> ((r \<in> set S) = (x \<in> set S))"
  shows "separates S (h[r := c]) ps rs"
proof (rule separatesI)
  have side: "x < length h \<and> ((r \<in> set S) = (x \<in> set S))" if "x \<in> set (refsOf c)" for x
    using side' that by blast
  fix a x assume a: "a < length (h[r := c])" and x: "x \<in> set (refsOf (h[r := c] ! a))"
  show "x < length (h[r := c]) \<and> ((a \<in> set S) = (x \<in> set S))"
  proof (cases "a = r")
    case True
    with a x have "x \<in> set (refsOf c)" by simp
    from side [OF this] True show ?thesis by simp
  next
    case False
    with a x have "a < length h" "x \<in> set (refsOf (h ! a))" by simp_all
    then have "x < length h" "(a \<in> set S) = (x \<in> set S)"
      using separatesD(1,2) [OF sep] by blast+
    then show ?thesis by simp
  qed
next
  fix a assume "a \<in> set S"
  then have "a < length h" by (rule separatesD(3) [OF sep])
  then show "a < length (h[r := c])" by simp
next
  show "set ps \<subseteq> set S" by (rule separatesD(4) [OF sep])
next
  fix x assume "x \<in> set rs"
  then have "x < length h" "x \<notin> set S" using separatesD(5,6) [OF sep] by blast+
  then show "x < length (h[r := c]) \<and> x \<notin> set S" by simp
qed

lemma work_write:
  assumes sep: "separates S h ps rs" and r: "r \<notin> set S"
    and c: "\<forall>x\<in>set (refsOf c). x < length h \<and> x \<notin> set S"
  shows "separates S (h[r := c]) ps rs" and "unchangedOn S h (h[r := c])"
proof -
  have "\<forall>x\<in>set (refsOf c). x < length h \<and> ((r \<in> set S) = (x \<in> set S))"
    using c r by blast
  then show "separates S (h[r := c]) ps rs" by (rule separates_write [OF sep])
  have "h[r := c] ! a = h ! a" if "a \<in> set S" for a
  proof -
    from that r have "a \<noteq> r" by blast
    then show ?thesis by simp
  qed
  then show "unchangedOn S h (h[r := c])" by (simp add: unchangedOn_iff)
qed

lemma separates_append:
  assumes sep: "separates S h ps rs"
    and cells': "\<forall>c\<in>set cells. \<forall>x\<in>set (refsOf c). length h \<le> x \<and> x < length h + length cells"
  shows "separates S (h @ cells) ps rs"
    and "separates (S @ [length h..<length h + length cells]) (h @ cells) ps rs"
    and "unchangedOn S h (h @ cells)"
proof -
  let ?new = "[length h..<length h + length cells]"
  have cells: "length h \<le> x \<and> x < length h + length cells"
    if "c \<in> set cells" "x \<in> set (refsOf c)" for c x
    using cells' that by blast
  have inS: "a < length h" if "a \<in> set S" for a using that by (rule separatesD(3) [OF sep])
  have old: "x < length h" "(a \<in> set S) = (x \<in> set S)"
    if "a < length h" "x \<in> set (refsOf ((h @ cells) ! a))" for a x
  proof -
    from that have x: "x \<in> set (refsOf (h ! a))" by (simp add: nth_append)
    show "x < length h" using that(1) x by (rule separatesD(1) [OF sep])
    show "(a \<in> set S) = (x \<in> set S)" using that(1) x by (rule separatesD(2) [OF sep])
  qed
  have new: "length h \<le> x \<and> x < length h + length cells"
    if "\<not> a < length h" "a < length (h @ cells)" "x \<in> set (refsOf ((h @ cells) ! a))" for a x
  proof -
    from that have "(h @ cells) ! a = cells ! (a - length h)" by (simp add: nth_append)
    moreover from that have "cells ! (a - length h) \<in> set cells" by simp
    ultimately show ?thesis using cells that(3) by metis
  qed
  show "separates S (h @ cells) ps rs"
  proof (rule separatesI)
    fix a x assume a: "a < length (h @ cells)" and x: "x \<in> set (refsOf ((h @ cells) ! a))"
    show "x < length (h @ cells) \<and> ((a \<in> set S) = (x \<in> set S))"
    proof (cases "a < length h")
      case True
      from old [OF True x] show ?thesis by simp
    next
      case False
      from new [OF False a x] have x': "length h \<le> x" "x < length h + length cells" by simp_all
      have "a \<notin> set S" using inS False by blast
      moreover have "x \<notin> set S" using inS x'(1) by fastforce
      ultimately show ?thesis using x'(2) by simp
    qed
  next
    fix a assume "a \<in> set S" from inS [OF this] show "a < length (h @ cells)" by simp
  next
    show "set ps \<subseteq> set S" by (rule separatesD(4) [OF sep])
  next
    fix r assume "r \<in> set rs"
    then have "r < length h" "r \<notin> set S" using separatesD(5,6) [OF sep] by blast+
    then show "r < length (h @ cells) \<and> r \<notin> set S" by simp
  qed
  show "separates (S @ ?new) (h @ cells) ps rs"
  proof (rule separatesI)
    fix a x assume a: "a < length (h @ cells)" and x: "x \<in> set (refsOf ((h @ cells) ! a))"
    show "x < length (h @ cells) \<and> ((a \<in> set (S @ ?new)) = (x \<in> set (S @ ?new)))"
    proof (cases "a < length h")
      case True
      from old [OF True x] have "x < length h" "(a \<in> set S) = (x \<in> set S)" by simp_all
      with True show ?thesis by simp
    next
      case False
      from new [OF False a x] have x': "length h \<le> x" "x < length h + length cells" by simp_all
      with False a show ?thesis by simp
    qed
  next
    fix a assume "a \<in> set (S @ ?new)"
    then have "a \<in> set S \<or> a < length h + length cells" by auto
    then show "a < length (h @ cells)" using inS by fastforce
  next
    show "set ps \<subseteq> set (S @ ?new)" using separatesD(4) [OF sep] by auto
  next
    fix r assume "r \<in> set rs"
    then have "r < length h" "r \<notin> set S" using separatesD(5,6) [OF sep] by blast+
    then show "r < length (h @ cells) \<and> r \<notin> set (S @ ?new)" by simp
  qed
  have "(h @ cells) ! a = h ! a" if "a \<in> set S" for a
    using inS [OF that] by (simp add: nth_append)
  then show "unchangedOn S h (h @ cells)" by (simp add: unchangedOn_iff)
qed

lemma work_cell:
  assumes sep: "separates S h ps rs" and a: "a \<notin> set S" and cell: "lookup h a = Some c"
    and x: "x \<in> set (refsOf c)"
  shows "x < length h \<and> x \<notin> set S"
  using separates_read [OF sep cell x] a by simp

lemma store_cell:
  assumes sep: "separates S h ps rs" and a: "a \<in> set S" and cell: "lookup h a = Some c"
    and x: "x \<in> set (refsOf c)"
  shows "x \<in> set S"
  using separates_read [OF sep cell x] a by simp

lemma arrayAt_SomeD: "arrayAt h r = Some rs \<Longrightarrow> lookup h r = Some (ArrayCell rs)"
  by (simp add: arrayAt_def split: option.splits cell.splits)

lemma lookup_unchanged:
  assumes sep: "separates S h ps rs" and un: "unchangedOn S h h'" and a: "a \<in> set S"
  shows "lookup h' a = lookup h a"
proof -
  have "a < length h" using a by (rule separatesD(3) [OF sep])
  moreover have "length h \<le> length h'" "h' ! a = h ! a"
    using un a by (simp_all add: unchangedOn_iff)
  ultimately show ?thesis by (simp add: lookup_def)
qed

lemma those_map_cong:
  assumes "\<And>x. x \<in> set xs \<Longrightarrow> f x = g x"
  shows "those (map f xs) = those (map g xs)"
proof -
  have "map f xs = map g xs" using assms by (rule map_cong [OF refl])
  then show ?thesis by (simp only:)
qed

text \<open>
  What \<^verbatim>\<open>toObj\<close> reads of a profile of the store lies in the store, so a heap that
  has kept the objects of the store gives the same plain object.
\<close>

lemma toObj_unchanged:
  assumes sep: "separates S h ps rs" and un: "unchangedOn S h h'" and p: "p \<in> set S"
  shows "toObj h' p = toObj h p"
proof -
  note same = lookup_unchanged [OF sep un]
  have lp: "lookup h' p = lookup h p" using p by (rule same)
  show ?thesis
  proof (cases "lookup h p")
    case None
    then show ?thesis using lp by (simp add: toObj_def)
  next
    case (Some c)
    show ?thesis
    proof (cases c)
      case (ProfileCell i l ns cs)
      have cell: "lookup h p = Some (ProfileCell i l ns cs)" using Some ProfileCell by simp
      have ns: "ns \<in> set S" by (rule store_cell [OF sep p cell]) simp
      have cs: "cs \<in> set S" by (rule store_cell [OF sep p cell]) simp
      have an: "arrayAt h' ns = arrayAt h ns" by (simp add: arrayAt_def same [OF ns])
      have ac: "arrayAt h' cs = arrayAt h cs" by (simp add: arrayAt_def same [OF cs])
      have nodes: "those (map (nodeAt h') nrefs) = those (map (nodeAt h) nrefs)"
        if "arrayAt h ns = Some nrefs" for nrefs
      proof (rule those_map_cong)
        fix x assume "x \<in> set nrefs"
        then have "x \<in> set (refsOf (ArrayCell nrefs))" by simp
        from store_cell [OF sep ns arrayAt_SomeD [OF that] this]
        show "nodeAt h' x = nodeAt h x" by (simp add: nodeAt_def same)
      qed
      have channels: "those (map (channelAt h') crefs) = those (map (channelAt h) crefs)"
        if "arrayAt h cs = Some crefs" for crefs
      proof (rule those_map_cong)
        fix x assume "x \<in> set crefs"
        then have "x \<in> set (refsOf (ArrayCell crefs))" by simp
        from store_cell [OF sep cs arrayAt_SomeD [OF that] this]
        show "channelAt h' x = channelAt h x" by (simp add: channelAt_def same)
      qed
      show ?thesis
      proof (cases "arrayAt h ns")
        case None
        then show ?thesis using lp cell an by (simp add: toObj_def)
      next
        case nrefs: (Some nrefs)
        show ?thesis
        proof (cases "arrayAt h cs")
          case None
          then show ?thesis using lp cell an ac nrefs by (simp add: toObj_def)
        next
          case crefs: (Some crefs)
          show ?thesis
            using lp cell an ac nrefs crefs nodes [OF nrefs] channels [OF crefs]
            by (simp add: toObj_def)
        qed
      qed
    next
      case (ArrayCell x)
      then show ?thesis using lp Some by (simp add: toObj_def)
    next
      case (NodeCell x)
      then show ?thesis using lp Some by (simp add: toObj_def)
    next
      case (ChannelCell x)
      then show ?thesis using lp Some by (simp add: toObj_def)
    qed
  qed
qed

subsection \<open>The edits of the equalizer\<close>

lemma currentArrays_work:
  assumes sep: "separates S (heap m) ps rs"
    and cur: "\<forall>c. currentProfile m = Some c \<longrightarrow> c \<in> set rs"
    and read: "currentArrays m = Some (ns, cs)"
  shows "ns < length (heap m) \<and> ns \<notin> set S" and "cs < length (heap m) \<and> cs \<notin> set S"
proof -
  from read obtain c i l where c: "currentProfile m = Some c"
    and cell: "lookup (heap m) c = Some (ProfileCell i l ns cs)"
    by (auto simp: currentArrays_def split: option.splits cell.splits)
  from cur c have "c \<in> set rs" by blast
  then have "c \<notin> set S" by (rule separatesD(6) [OF sep])
  note w = work_cell [OF sep this cell]
  show "ns < length (heap m) \<and> ns \<notin> set S" by (rule w) simp
  show "cs < length (heap m) \<and> cs \<notin> set S" by (rule w) simp
qed

lemma currentEqualizerNodes_work:
  assumes sep: "separates S (heap m) ps rs"
    and cur: "\<forall>c. currentProfile m = Some c \<longrightarrow> c \<in> set rs"
    and read: "currentEqualizerNodes m = Some (ns, nrefs)"
  shows "ns < length (heap m)" and "ns \<notin> set S"
    and "\<And>x. x \<in> set nrefs \<Longrightarrow> x < length (heap m) \<and> x \<notin> set S"
proof -
  from read obtain cs where arrs: "currentArrays m = Some (ns, cs)"
    and arr: "arrayAt (heap m) ns = Some nrefs"
    by (auto simp: currentEqualizerNodes_def split: option.splits)
  from currentArrays_work(1) [OF sep cur arrs]
  show ns: "ns < length (heap m)" and ns': "ns \<notin> set S" by simp_all
  fix x assume "x \<in> set nrefs"
  then have "x \<in> set (refsOf (ArrayCell nrefs))" by simp
  from work_cell [OF sep ns' arrayAt_SomeD [OF arr] this]
  show "x < length (heap m) \<and> x \<notin> set S" .
qed

lemma currentMixerChannels_work:
  assumes sep: "separates S (heap m) ps rs"
    and cur: "\<forall>c. currentProfile m = Some c \<longrightarrow> c \<in> set rs"
    and read: "currentMixerChannels m = Some (cs, crefs)"
  shows "cs < length (heap m)" and "cs \<notin> set S"
    and "\<And>x. x \<in> set crefs \<Longrightarrow> x < length (heap m) \<and> x \<notin> set S"
proof -
  from read obtain ns where arrs: "currentArrays m = Some (ns, cs)"
    and arr: "arrayAt (heap m) cs = Some crefs"
    by (auto simp: currentMixerChannels_def split: option.splits)
  from currentArrays_work(2) [OF sep cur arrs]
  show cs: "cs < length (heap m)" and cs': "cs \<notin> set S" by simp_all
  fix x assume "x \<in> set crefs"
  then have "x \<in> set (refsOf (ArrayCell crefs))" by simp
  from work_cell [OF sep cs' arrayAt_SomeD [OF arr] this]
  show "x < length (heap m) \<and> x \<notin> set S" .
qed

text \<open>
  What an edit of the equalizer keeps: the separation, the objects of the store, the
  stored profiles and the current profile.
\<close>

lemma addEQNode_separates:
  assumes sep: "separates S (heap m) ps rs"
    and cur: "\<forall>c. currentProfile m = Some c \<longrightarrow> c \<in> set rs"
    and node: "node < length (heap m)" "node \<notin> set S"
  shows "separates S (heap (snd (addEQNode node m))) ps rs
       \<and> unchangedOn S (heap m) (heap (snd (addEQNode node m)))
       \<and> profiles (snd (addEQNode node m)) = profiles m
       \<and> currentProfile (snd (addEQNode node m)) = currentProfile m"
proof (cases "currentEqualizerNodes m")
  case None
  then show ?thesis using sep by (simp add: addEQNode_def unchangedOn_refl)
next
  case (Some a)
  obtain ns nrefs where a: "a = (ns, nrefs)" by (cases a)
  note read = Some [unfolded a]
  note w = currentEqualizerNodes_work [OF sep cur read]
  have refs: "\<forall>x\<in>set (refsOf (ArrayCell (nrefs @ [node]))). x < length (heap m) \<and> x \<notin> set S"
    using w(3) node by auto
  have res: "snd (addEQNode node m) = m\<lparr>heap := (heap m)[ns := ArrayCell (nrefs @ [node])]\<rparr>"
    using read by (simp add: addEQNode_def)
  show ?thesis
    unfolding res using work_write [OF sep w(2) refs] by simp
qed

lemma zeroLineNodeClick_separates:
  assumes sep: "separates S (heap m) ps rs"
    and cur: "\<forall>c. currentProfile m = Some c \<longrightarrow> c \<in> set rs"
  shows "separates S (heap (snd (zeroLineNodeClick type newFrequency m))) ps rs
       \<and> unchangedOn S (heap m) (heap (snd (zeroLineNodeClick type newFrequency m)))
       \<and> profiles (snd (zeroLineNodeClick type newFrequency m)) = profiles m
       \<and> currentProfile (snd (zeroLineNodeClick type newFrequency m)) = currentProfile m"
proof -
  let ?cell = "NodeCell \<lparr>nodeType = type, frequency = newFrequency, nodeGain = 0, q = 1\<rparr>"
  let ?m1 = "m\<lparr>heap := heap m @ [?cell]\<rparr>"
  have res: "zeroLineNodeClick type newFrequency m = addEQNode (length (heap m)) ?m1"
    by (simp add: zeroLineNodeClick_def alloc_def)
  have cells: "\<forall>c\<in>set [?cell]. \<forall>x\<in>set (refsOf c).
                 length (heap m) \<le> x \<and> x < length (heap m) + length [?cell]"
    by simp
  from separates_append(1,3) [OF sep cells]
  have sep1: "separates S (heap ?m1) ps rs" and un1: "unchangedOn S (heap m) (heap ?m1)"
    by simp_all
  have cur1: "\<forall>c. currentProfile ?m1 = Some c \<longrightarrow> c \<in> set rs"
    using cur by simp
  have node: "length (heap m) < length (heap ?m1)" by simp
  have node': "length (heap m) \<notin> set S"
    using separatesD(3) [OF sep, of "length (heap m)"] by blast
  from addEQNode_separates [OF sep1 cur1 node node']
  have a: "separates S (heap (snd (addEQNode (length (heap m)) ?m1))) ps rs"
    and b: "unchangedOn S (heap ?m1) (heap (snd (addEQNode (length (heap m)) ?m1)))"
    and c: "profiles (snd (addEQNode (length (heap m)) ?m1)) = profiles m"
    and d: "currentProfile (snd (addEQNode (length (heap m)) ?m1)) = currentProfile m"
    by simp_all
  from unchangedOn_trans [OF un1 b] a c d show ?thesis by (simp only: res simp_thms)
qed

lemma updateNode_separates:
  assumes sep: "separates S (heap m) ps rs"
    and cur: "\<forall>c. currentProfile m = Some c \<longrightarrow> c \<in> set rs"
  shows "separates S (heap (snd (updateNode i f m))) ps rs
       \<and> unchangedOn S (heap m) (heap (snd (updateNode i f m)))
       \<and> profiles (snd (updateNode i f m)) = profiles m
       \<and> currentProfile (snd (updateNode i f m)) = currentProfile m"
proof -
  have keep: ?thesis if "snd (updateNode i f m) = m"
    using that sep by (simp add: unchangedOn_refl)
  show ?thesis
  proof (cases "currentEqualizerNodes m")
    case None
    then show ?thesis by (intro keep) (simp add: updateNode_def)
  next
    case (Some a)
    obtain ns nrefs where a: "a = (ns, nrefs)" by (cases a)
    note read = Some [unfolded a]
    note w = currentEqualizerNodes_work [OF sep cur read]
    show ?thesis
    proof (cases "i < length nrefs")
      case False
      then show ?thesis using read by (intro keep) (simp add: updateNode_def)
    next
      case True
      show ?thesis
      proof (cases "nodeAt (heap m) (nrefs ! i)")
        case None
        then show ?thesis using read True by (intro keep) (simp add: updateNode_def)
      next
        case node: (Some node)
        have res: "snd (updateNode i f m) = m\<lparr>heap := (heap m)[nrefs ! i := NodeCell (f node)]\<rparr>"
          using read True node by (simp add: updateNode_def)
        have r: "nrefs ! i \<notin> set S" using w(3) [of "nrefs ! i"] True by simp
        have refs: "\<forall>x\<in>set (refsOf (NodeCell (f node))). x < length (heap m) \<and> x \<notin> set S"
          by simp
        show ?thesis
          unfolding res using work_write [OF sep r refs] by simp
      qed
    qed
  qed
qed

lemma nodeDelete_separates:
  assumes sep: "separates S (heap m) ps rs"
    and cur: "\<forall>c. currentProfile m = Some c \<longrightarrow> c \<in> set rs"
  shows "separates S (heap (snd (nodeDelete i m))) ps rs
       \<and> unchangedOn S (heap m) (heap (snd (nodeDelete i m)))
       \<and> profiles (snd (nodeDelete i m)) = profiles m
       \<and> currentProfile (snd (nodeDelete i m)) = currentProfile m"
proof (cases "currentEqualizerNodes m")
  case None
  then show ?thesis using sep by (simp add: nodeDelete_def unchangedOn_refl)
next
  case (Some a)
  obtain ns nrefs where a: "a = (ns, nrefs)" by (cases a)
  note read = Some [unfolded a]
  note w = currentEqualizerNodes_work [OF sep cur read]
  have refs: "\<forall>x\<in>set (refsOf (ArrayCell (take i nrefs @ drop (Suc i) nrefs))).
                x < length (heap m) \<and> x \<notin> set S"
  proof
    fix x assume "x \<in> set (refsOf (ArrayCell (take i nrefs @ drop (Suc i) nrefs)))"
    then have "x \<in> set (take i nrefs) \<or> x \<in> set (drop (Suc i) nrefs)" by simp
    then have "x \<in> set nrefs" by (blast dest: in_set_takeD in_set_dropD)
    then show "x < length (heap m) \<and> x \<notin> set S" by (rule w(3))
  qed
  have res: "snd (nodeDelete i m) = m\<lparr>heap := (heap m)[ns := ArrayCell (take i nrefs @ drop (Suc i) nrefs)]\<rparr>"
    using read by (simp add: nodeDelete_def)
  show ?thesis
    unfolding res using work_write [OF sep w(2) refs] by simp
qed

lemma refreshMixerCurrent_separates:
  assumes sep: "separates S (heap m) ps rs"
    and cur: "\<forall>c. currentProfile m = Some c \<longrightarrow> c \<in> set rs"
  shows "separates S (heap (snd (refreshMixerCurrent m))) ps rs
       \<and> unchangedOn S (heap m) (heap (snd (refreshMixerCurrent m)))
       \<and> profiles (snd (refreshMixerCurrent m)) = profiles m
       \<and> currentProfile (snd (refreshMixerCurrent m)) = currentProfile m"
proof -
  have keep: ?thesis if "snd (refreshMixerCurrent m) = m"
    using that sep by (simp add: unchangedOn_refl)
  show ?thesis
  proof (cases "currentProfile m")
    case None
    then show ?thesis by (intro keep) (simp add: refreshMixerCurrent_def)
  next
    case c: (Some c)
    show ?thesis
    proof (cases "currentMixerChannels m")
      case None
      then show ?thesis using c by (intro keep) (simp add: refreshMixerCurrent_def)
    next
      case (Some a)
      obtain cs crefs where a: "a = (cs, crefs)" by (cases a)
      note read = Some [unfolded a]
      note w = currentMixerChannels_work [OF sep cur read]
      let ?cells = "map ChannelCell
                      (map (\<lambda>j. newAudioChannelControl (int j) 1 False False) [length crefs..<7])"
      let ?new = "[length (heap m)..<length (heap m) + length ?cells]"
      let ?h1 = "heap m @ ?cells"
      have res: "snd (refreshMixerCurrent m) = m\<lparr>heap := ?h1[cs := ArrayCell (crefs @ ?new)]\<rparr>"
        using c read by (simp add: refreshMixerCurrent_def allocAll_append)
      have cells: "\<forall>c\<in>set ?cells. \<forall>x\<in>set (refsOf c).
                     length (heap m) \<le> x \<and> x < length (heap m) + length ?cells"
        by auto
      from separates_append(1,3) [OF sep cells]
      have sep1: "separates S ?h1 ps rs" and un1: "unchangedOn S (heap m) ?h1" by simp_all
      have refs: "\<forall>x\<in>set (refsOf (ArrayCell (crefs @ ?new))). x < length ?h1 \<and> x \<notin> set S"
      proof
        fix x assume "x \<in> set (refsOf (ArrayCell (crefs @ ?new)))"
        then have "x \<in> set crefs \<or> (length (heap m) \<le> x \<and> x < length ?h1)" by auto
        then show "x < length ?h1 \<and> x \<notin> set S"
        proof
          assume "x \<in> set crefs"
          from w(3) [OF this] show "x < length ?h1 \<and> x \<notin> set S" by simp
        next
          assume x: "length (heap m) \<le> x \<and> x < length ?h1"
          then have "x \<notin> set S" using separatesD(3) [OF sep, of x] by auto
          then show "x < length ?h1 \<and> x \<notin> set S" using x by simp
        qed
      qed
      from work_write [OF sep1 w(2) refs]
      have a: "separates S (?h1[cs := ArrayCell (crefs @ ?new)]) ps rs"
        and b: "unchangedOn S ?h1 (?h1[cs := ArrayCell (crefs @ ?new)])" by simp_all
      from unchangedOn_trans [OF un1 b] a show ?thesis unfolding res by simp
    qed
  qed
qed

subsection \<open>The mixer handlers and the activation\<close>

lemma roots_mgr:
  "currentProfile m' = currentProfile (mgr s) \<Longrightarrow> roots (s\<lparr>mgr := m'\<rparr>) = roots s"
  by (simp add: roots_def)

lemma roots_current: "\<forall>c. currentProfile (mgr s) = Some c \<longrightarrow> c \<in> set (roots s)"
  by (simp add: roots_def)

lemma roots_mixerProfile: "mixerProfile s = Some c \<Longrightarrow> c \<in> set (roots s)"
  by (simp add: roots_def)

lemma roots_elements: "k < length (mixerChannelElements s) \<Longrightarrow> mixerChannelElements s ! k \<in> set (roots s)"
  by (simp add: roots_def)

lemma onManager_separated:
  assumes f: "separates S (heap (snd (f (mgr s)))) (profiles (mgr s)) (roots s)
       \<and> unchangedOn S (heap (mgr s)) (heap (snd (f (mgr s))))
       \<and> profiles (snd (f (mgr s))) = profiles (mgr s)
       \<and> currentProfile (snd (f (mgr s))) = currentProfile (mgr s)"
  shows "separated S (snd (onManager f s))
       \<and> profiles (mgr (snd (onManager f s))) = profiles (mgr s)
       \<and> unchangedOn S (heap (mgr s)) (heap (mgr (snd (onManager f s))))"
proof -
  have res: "snd (onManager f s) = s\<lparr>mgr := snd (f (mgr s))\<rparr>"
    by (simp add: onManager_def split_beta)
  from f have cur: "currentProfile (snd (f (mgr s))) = currentProfile (mgr s)" by simp
  show ?thesis
    unfolding res separated_def using f by (simp add: roots_mgr [OF cur])
qed

lemma heap_write_separated:
  assumes sep: "separated S s" and r: "r \<in> set (roots s)"
    and c: "refsOf c = []"
  shows "separated S (s\<lparr>mgr := (mgr s)\<lparr>heap := (heap (mgr s))[r := c]\<rparr>\<rparr>)
       \<and> unchangedOn S (heap (mgr s)) ((heap (mgr s))[r := c])"
proof -
  from sep have sep': "separates S (heap (mgr s)) (profiles (mgr s)) (roots s)"
    by (simp add: separated_def)
  have r': "r \<notin> set S" using r by (rule separatesD(6) [OF sep'])
  have refs: "\<forall>x\<in>set (refsOf c). x < length (heap (mgr s)) \<and> x \<notin> set S" by (simp add: c)
  have same: "roots (s\<lparr>mgr := (mgr s)\<lparr>heap := (heap (mgr s))[r := c]\<rparr>\<rparr>) = roots s"
    by (simp add: roots_def)
  from work_write [OF sep' r' refs] show ?thesis
    unfolding separated_def same by simp
qed

lemma updateElementChannel_separated:
  assumes sep: "separated S s"
  shows "separated S (snd (updateElementChannel k f s))
       \<and> profiles (mgr (snd (updateElementChannel k f s))) = profiles (mgr s)
       \<and> unchangedOn S (heap (mgr s)) (heap (mgr (snd (updateElementChannel k f s))))"
proof -
  have keep: ?thesis if "snd (updateElementChannel k f s) = s"
    using that sep by (simp add: unchangedOn_refl)
  show ?thesis
  proof (cases "k < length (mixerChannelElements s)")
    case False
    then show ?thesis by (intro keep) (simp add: updateElementChannel_def)
  next
    case True
    show ?thesis
    proof (cases "channelAt (heap (mgr s)) (mixerChannelElements s ! k)")
      case None
      then show ?thesis using True by (intro keep) (simp add: updateElementChannel_def)
    next
      case (Some channel)
      have res: "snd (updateElementChannel k f s) =
                 s\<lparr>mgr := (mgr s)\<lparr>heap := (heap (mgr s))[mixerChannelElements s ! k := ChannelCell (f channel)]\<rparr>\<rparr>"
        using True Some by (simp add: updateElementChannel_def)
      have c: "refsOf (ChannelCell (f channel)) = []" by simp
      from heap_write_separated [OF sep roots_elements [OF True] c]
      show ?thesis unfolding res by simp
    qed
  qed
qed

lemma clearSoloAt_separates:
  assumes "separates S h ps rs" and "\<forall>x\<in>set crefs. x \<notin> set S"
  shows "separates S (snd (clearSoloAt n crefs h)) ps rs
       \<and> unchangedOn S h (snd (clearSoloAt n crefs h))"
  using assms
proof (induction crefs arbitrary: h)
  case Nil
  then show ?case by (simp add: unchangedOn_refl)
next
  case (Cons r rest)
  from Cons.prems(2) have r: "r \<notin> set S" and rest: "\<forall>x\<in>set rest. x \<notin> set S" by simp_all
  show ?case
  proof (cases "channelAt h r")
    case None
    then show ?thesis using Cons.prems(1) by (simp add: unchangedOn_refl)
  next
    case (Some channel)
    let ?h1 = "h[r := ChannelCell (channel\<lparr>solo := False\<rparr>)]"
    have refs: "\<forall>x\<in>set (refsOf (ChannelCell (channel\<lparr>solo := False\<rparr>))). x < length h \<and> x \<notin> set S"
      by simp
    from work_write [OF Cons.prems(1) r refs]
    have sep1: "separates S ?h1 ps rs" and un1: "unchangedOn S h ?h1" by simp_all
    show ?thesis
    proof (cases "0 \<le> channelId channel \<and> nat (channelId channel) < n")
      case False
      have "snd (clearSoloAt n (r # rest) h) = ?h1"
        by (simp only: clearSoloAt.simps Some option.case False if_False snd_conv)
      then show ?thesis using sep1 un1 by simp
    next
      case True
      have res: "snd (clearSoloAt n (r # rest) h) = snd (clearSoloAt n rest ?h1)"
        by (simp only: clearSoloAt.simps Some option.case True simp_thms if_True)
      from Cons.IH [OF sep1 rest]
      have a: "separates S (snd (clearSoloAt n rest ?h1)) ps rs"
        and b: "unchangedOn S ?h1 (snd (clearSoloAt n rest ?h1))" by simp_all
      from a unchangedOn_trans [OF un1 b] show ?thesis unfolding res by simp
    qed
  qed
qed

lemma negateSoloAt_separates:
  assumes sep: "separates S h ps rs" and r: "r \<notin> set S"
  shows "separates S (negateSoloAt r h) ps rs \<and> unchangedOn S h (negateSoloAt r h)"
proof (cases "channelAt h r")
  case None
  then show ?thesis using sep by (simp add: negateSoloAt_def unchangedOn_refl)
next
  case (Some channel)
  have refs: "\<forall>x\<in>set (refsOf (ChannelCell (channel\<lparr>solo := \<not> solo channel\<rparr>))). x < length h \<and> x \<notin> set S"
    by simp
  from work_write [OF sep r refs] show ?thesis using Some by (simp add: negateSoloAt_def)
qed

lemma capturedMixerChannels_work:
  assumes sep: "separated S s" and read: "capturedMixerChannels s = Some crefs"
  shows "\<forall>x\<in>set crefs. x \<notin> set S"
proof
  fix x assume x: "x \<in> set crefs"
  from sep have sep': "separates S (heap (mgr s)) (profiles (mgr s)) (roots s)"
    by (simp add: separated_def)
  from read obtain c i l ns cs where c: "mixerProfile s = Some c"
    and cell: "lookup (heap (mgr s)) c = Some (ProfileCell i l ns cs)"
    and arr: "arrayAt (heap (mgr s)) cs = Some crefs"
    by (auto simp: capturedMixerChannels_def split: option.splits cell.splits)
  have "c \<notin> set S" using roots_mixerProfile [OF c] by (rule separatesD(6) [OF sep'])
  from work_cell [OF sep' this cell, of cs] have cs: "cs \<notin> set S" by simp
  from x have "x \<in> set (refsOf (ArrayCell crefs))" by simp
  from work_cell [OF sep' cs arrayAt_SomeD [OF arr] this] show "x \<notin> set S" by simp
qed

lemma heap_separated:
  assumes "separates S h (profiles (mgr s)) (roots s)"
  shows "separated S (s\<lparr>mgr := (mgr s)\<lparr>heap := h\<rparr>\<rparr>)"
proof -
  have "roots (s\<lparr>mgr := (mgr s)\<lparr>heap := h\<rparr>\<rparr>) = roots s" by (simp add: roots_def)
  then show ?thesis using assms by (simp add: separated_def)
qed

lemma soloButtonClickElement_separated:
  assumes sep: "separated S s"
  shows "separated S (snd (soloButtonClickElement k s))
       \<and> profiles (mgr (snd (soloButtonClickElement k s))) = profiles (mgr s)
       \<and> unchangedOn S (heap (mgr s)) (heap (mgr (snd (soloButtonClickElement k s))))"
proof -
  from sep have sep': "separates S (heap (mgr s)) (profiles (mgr s)) (roots s)"
    by (simp add: separated_def)
  have keep: ?thesis if "snd (soloButtonClickElement k s) = s"
    using that sep by (simp add: unchangedOn_refl)
  have heap: ?thesis
    if "snd (soloButtonClickElement k s) = s\<lparr>mgr := (mgr s)\<lparr>heap := h\<rparr>\<rparr>"
      and "separates S h (profiles (mgr s)) (roots s) \<and> unchangedOn S (heap (mgr s)) h" for h
    using that heap_separated [of S h s] by simp
  show ?thesis
  proof (cases "k < length (mixerChannelElements s)")
    case False
    then show ?thesis by (intro keep) (simp add: soloButtonClickElement_def)
  next
    case True
    let ?r = "mixerChannelElements s ! k"
    have r: "?r \<notin> set S" using roots_elements [OF True] by (rule separatesD(6) [OF sep'])
    show ?thesis
    proof (cases "channelAt (heap (mgr s)) ?r")
      case None
      then show ?thesis using True by (intro keep) (simp add: soloButtonClickElement_def)
    next
      case (Some channel)
      show ?thesis
      proof (cases "solo channel")
        case True
        have "snd (soloButtonClickElement k s) = s\<lparr>mgr := (mgr s)\<lparr>heap := negateSoloAt ?r (heap (mgr s))\<rparr>\<rparr>"
          using \<open>k < length (mixerChannelElements s)\<close> Some True
          by (simp add: soloButtonClickElement_def)
        then show ?thesis using negateSoloAt_separates [OF sep' r] by (rule heap)
      next
        case False
        show ?thesis
        proof (cases "capturedMixerChannels s")
          case None
          then show ?thesis
            using \<open>k < length (mixerChannelElements s)\<close> Some False
            by (intro keep) (simp add: soloButtonClickElement_def)
        next
          case crefs: (Some crefs)
          let ?n = "length (mixerChannelElements s)"
          let ?h1 = "snd (clearSoloAt ?n crefs (heap (mgr s)))"
          from clearSoloAt_separates [OF sep' capturedMixerChannels_work [OF sep crefs], of ?n]
          have sep1: "separates S ?h1 (profiles (mgr s)) (roots s)"
            and un1: "unchangedOn S (heap (mgr s)) ?h1" by simp_all
          show ?thesis
          proof (cases "fst (clearSoloAt ?n crefs (heap (mgr s)))")
            case (Some e)
            have "snd (soloButtonClickElement k s) = s\<lparr>mgr := (mgr s)\<lparr>heap := ?h1\<rparr>\<rparr>"
              using \<open>k < length (mixerChannelElements s)\<close> \<open>channelAt (heap (mgr s)) ?r = Some channel\<close>
                False crefs Some
              by (simp add: soloButtonClickElement_def split_beta)
            then show ?thesis using sep1 un1 by (intro heap) simp_all
          next
            case None
            have res: "snd (soloButtonClickElement k s) = s\<lparr>mgr := (mgr s)\<lparr>heap := negateSoloAt ?r ?h1\<rparr>\<rparr>"
              using \<open>k < length (mixerChannelElements s)\<close> \<open>channelAt (heap (mgr s)) ?r = Some channel\<close>
                False crefs None
              by (simp add: soloButtonClickElement_def split_beta)
            from negateSoloAt_separates [OF sep1 r]
            have a: "separates S (negateSoloAt ?r ?h1) (profiles (mgr s)) (roots s)"
              and b: "unchangedOn S ?h1 (negateSoloAt ?r ?h1)" by simp_all
            from res a unchangedOn_trans [OF un1 b] show ?thesis by (intro heap) simp_all
          qed
        qed
      qed
    qed
  qed
qed

lemma refreshMixerSession_separated:
  assumes sep: "separated S s"
  shows "separated S (snd (refreshMixerSession s))
       \<and> profiles (mgr (snd (refreshMixerSession s))) = profiles (mgr s)
       \<and> unchangedOn S (heap (mgr s)) (heap (mgr (snd (refreshMixerSession s))))"
proof -
  from sep have sep': "separates S (heap (mgr s)) (profiles (mgr s)) (roots s)"
    by (simp add: separated_def)
  show ?thesis
  proof (cases "currentProfile (mgr s)")
    case None
    have res: "snd (refreshMixerSession s) = s\<lparr>mixerChannelElements := []\<rparr>"
      using None by (simp add: refreshMixerSession_def)
    have "\<forall>r\<in>set (roots (s\<lparr>mixerChannelElements := []\<rparr>)). r < length (heap (mgr s)) \<and> r \<notin> set S"
      using separatesD(5,6) [OF sep'] by (auto simp: roots_def)
    from separates_roots [OF sep' this] show ?thesis
      unfolding res by (simp add: separated_def unchangedOn_refl)
  next
    case (Some c)
    let ?m' = "snd (refreshMixerCurrent (mgr s))"
    from refreshMixerCurrent_separates [OF sep' roots_current]
    have sep1: "separates S (heap ?m') (profiles (mgr s)) (roots s)"
      and un1: "unchangedOn S (heap (mgr s)) (heap ?m')"
      and ps1: "profiles ?m' = profiles (mgr s)"
      and cur1: "currentProfile ?m' = currentProfile (mgr s)" by simp_all
    have old: "r < length (heap ?m') \<and> r \<notin> set S" if "r \<in> set (roots s)" for r
      using that separatesD(5,6) [OF sep1] by blast
    have c: "c \<in> set (roots s)" using Some roots_current by blast
    have goal: ?thesis
      if res: "snd (refreshMixerSession s) = s\<lparr>mgr := ?m', mixerProfile := mp, mixerChannelElements := els\<rparr>"
        and mp: "mp = mixerProfile s \<or> mp = Some c"
        and els: "\<forall>r\<in>set els. r < length (heap ?m') \<and> r \<notin> set S" for mp els
    proof -
      have "\<forall>r\<in>set (roots (s\<lparr>mgr := ?m', mixerProfile := mp, mixerChannelElements := els\<rparr>)).
              r < length (heap ?m') \<and> r \<notin> set S"
      proof
        fix r assume "r \<in> set (roots (s\<lparr>mgr := ?m', mixerProfile := mp, mixerChannelElements := els\<rparr>))"
        then have "r = c \<or> mp = Some r \<or> r \<in> set els"
          using Some cur1 by (auto simp: roots_def split: option.splits)
        then consider "r = c" | "mixerProfile s = Some r" | "r \<in> set els" using mp by auto
        then show "r < length (heap ?m') \<and> r \<notin> set S"
        proof cases
          case 1
          then show ?thesis using old [OF c] by simp
        next
          case 2
          from old [OF roots_mixerProfile [OF this]] show ?thesis .
        next
          case 3
          then show ?thesis using els by blast
        qed
      qed
      from separates_roots [OF sep1 this] un1 ps1 show ?thesis
        unfolding res by (simp add: separated_def)
    qed
    show ?thesis
    proof (cases "fst (refreshMixerCurrent (mgr s))")
      case e: (Some e)
      have "snd (refreshMixerSession s) = s\<lparr>mgr := ?m', mixerProfile := mixerProfile s, mixerChannelElements := []\<rparr>"
        using Some e by (simp add: refreshMixerSession_def split_beta)
      then show ?thesis by (rule goal) simp_all
    next
      case None
      show ?thesis
      proof (cases "currentMixerChannels ?m'")
        case none: None
        have "snd (refreshMixerSession s) = s\<lparr>mgr := ?m', mixerProfile := mixerProfile s, mixerChannelElements := []\<rparr>"
          using Some None none by (simp add: refreshMixerSession_def split_beta)
        then show ?thesis by (rule goal) simp_all
      next
        case some: (Some a)
        obtain cs crefs where a: "a = (cs, crefs)" by (cases a)
        note read = some [unfolded a]
        have cur': "\<forall>c. currentProfile ?m' = Some c \<longrightarrow> c \<in> set (roots s)"
          using roots_current [of s] by (simp only: cur1)
        note w = currentMixerChannels_work [OF sep1 cur' read]
        have els: "\<forall>r\<in>set (take 7 crefs). r < length (heap ?m') \<and> r \<notin> set S"
          using w(3) by (blast dest: in_set_takeD)
        have "snd (refreshMixerSession s) = s\<lparr>mgr := ?m', mixerProfile := Some c, mixerChannelElements := take 7 crefs\<rparr>"
          using Some None read by (simp add: refreshMixerSession_def split_beta)
        then show ?thesis using _ els by (rule goal) simp
      qed
    qed
  qed
qed

lemma fromObj_cells:
  obtains cells where "fromObj obj h = (length h + length cells - 1, h @ cells)"
    and "cells \<noteq> []"
    and "\<forall>c\<in>set cells. \<forall>x\<in>set (refsOf c). length h \<le> x \<and> x < length h + length cells"
proof
  let ?N = "objEqualizerNodes obj" and ?C = "objMixerChannels obj"
  let ?n = "length h + length ?N"
  let ?c = "?n + 1 + length ?C"
  let ?cells = "map NodeCell ?N @ [ArrayCell [length h..<?n]] @ map ChannelCell ?C
                @ [ArrayCell [?n + 1..<?c]] @ [ProfileCell (objId obj) (objLabel obj) ?n ?c]"
  show "fromObj obj h = (length h + length ?cells - 1, h @ ?cells)"
    by (simp add: fromObj_append)
  show "?cells \<noteq> []" by simp
  show "\<forall>c\<in>set ?cells. \<forall>x\<in>set (refsOf c). length h \<le> x \<and> x < length h + length ?cells"
  proof (intro ballI)
    fix c x assume c: "c \<in> set ?cells" and x: "x \<in> set (refsOf c)"
    from c consider "c \<in> NodeCell ` set ?N" | "c = ArrayCell [length h..<?n]"
      | "c \<in> ChannelCell ` set ?C" | "c = ArrayCell [?n + 1..<?c]"
      | "c = ProfileCell (objId obj) (objLabel obj) ?n ?c" by auto
    then show "length h \<le> x \<and> x < length h + length ?cells"
    proof cases
      case 1
      then show ?thesis using x by auto
    next
      case 2
      then show ?thesis using x by auto
    next
      case 3
      then show ?thesis using x by auto
    next
      case 4
      then show ?thesis using x by auto
    next
      case 5
      then show ?thesis using x by auto
    qed
  qed
qed

lemma setCurrentProfile_separated:
  assumes sep: "separated S s"
  shows "separated S (snd (onManager (setCurrentProfile profile) s))
       \<and> profiles (mgr (snd (onManager (setCurrentProfile profile) s))) = profiles (mgr s)
       \<and> unchangedOn S (heap (mgr s)) (heap (mgr (snd (onManager (setCurrentProfile profile) s))))"
proof (cases "toObj (heap (mgr s)) profile")
  case None
  then have "snd (onManager (setCurrentProfile profile) s) = s"
    by (simp add: onManager_def setCurrentProfile_def copy_def)
  then show ?thesis using sep by (simp add: unchangedOn_refl)
next
  case (Some obj)
  let ?h = "heap (mgr s)"
  from sep have sep': "separates S ?h (profiles (mgr s)) (roots s)"
    by (simp add: separated_def)
  obtain cells where f: "fromObj obj ?h = (length ?h + length cells - 1, ?h @ cells)"
    and ne: "cells \<noteq> []"
    and refs: "\<forall>c\<in>set cells. \<forall>x\<in>set (refsOf c). length ?h \<le> x \<and> x < length ?h + length cells"
    by (rule fromObj_cells)
  let ?c = "length ?h + length cells - 1"
  let ?s' = "s\<lparr>mgr := (mgr s)\<lparr>heap := ?h @ cells, currentProfile := Some ?c\<rparr>\<rparr>"
  have res: "snd (onManager (setCurrentProfile profile) s) = ?s'"
    using Some f by (simp add: onManager_def setCurrentProfile_def copy_def)
  from separates_append(1,3) [OF sep' refs]
  have sep1: "separates S (?h @ cells) (profiles (mgr s)) (roots s)"
    and un1: "unchangedOn S ?h (?h @ cells)" by simp_all
  have "\<forall>r\<in>set (roots ?s'). r < length (?h @ cells) \<and> r \<notin> set S"
  proof
    fix r assume "r \<in> set (roots ?s')"
    then have "r = ?c \<or> r \<in> set (roots s)" by (auto simp: roots_def split: option.splits)
    then show "r < length (?h @ cells) \<and> r \<notin> set S"
    proof
      assume r: "r = ?c"
      have pos: "0 < length cells" using ne by simp
      have "r < length ?h + length cells" "length ?h \<le> r" using r pos by linarith+
      then have "r < length (?h @ cells)" "length ?h \<le> r" by simp_all
      moreover have "r \<notin> set S" using separatesD(3) [OF sep', of r] \<open>length ?h \<le> r\<close> by auto
      ultimately show ?thesis by simp
    next
      assume "r \<in> set (roots s)"
      then show ?thesis using separatesD(5,6) [OF sep1] by blast
    qed
  qed
  from separates_roots [OF sep1 this] un1 show ?thesis
    unfolding res by (simp add: separated_def)
qed

text \<open>
  No event of the equalizer or the mixer, no \<^verbatim>\<open>refreshMixer\<close> and no activation
  writes to an object of the store or changes which profiles are stored.
\<close>

lemma applyEdit_separated:
  assumes sep: "separated S s"
  shows "separated S (snd (applyEdit e s))
       \<and> profiles (mgr (snd (applyEdit e s))) = profiles (mgr s)
       \<and> unchangedOn S (heap (mgr s)) (heap (mgr (snd (applyEdit e s))))"
proof -
  from sep have sep': "separates S (heap (mgr s)) (profiles (mgr s)) (roots s)"
    by (simp add: separated_def)
  note cur = roots_current [of s]
  show ?thesis
  proof (cases e)
    case (ZeroLineNodeClick type newFrequency)
    show ?thesis unfolding ZeroLineNodeClick applyEdit.simps
      by (rule onManager_separated) (rule zeroLineNodeClick_separates [OF sep' cur])
  next
    case (NodeDrag i newFrequency newDB)
    show ?thesis unfolding NodeDrag applyEdit.simps nodeDrag_def
      by (rule onManager_separated) (rule updateNode_separates [OF sep' cur])
  next
    case (NodeWheel i newQ)
    show ?thesis unfolding NodeWheel applyEdit.simps nodeWheel_def
      by (rule onManager_separated) (rule updateNode_separates [OF sep' cur])
  next
    case (NodeRotateType i forward)
    show ?thesis unfolding NodeRotateType applyEdit.simps nodeRotateType_def
      by (rule onManager_separated) (rule updateNode_separates [OF sep' cur])
  next
    case (NodeDelete i)
    show ?thesis unfolding NodeDelete applyEdit.simps
      by (rule onManager_separated) (rule nodeDelete_separates [OF sep' cur])
  next
    case (SetChannelGain k newGain)
    show ?thesis unfolding SetChannelGain applyEdit.simps setChannelGain_def
      by (rule updateElementChannel_separated [OF sep])
  next
    case (MuteButtonClick k)
    show ?thesis unfolding MuteButtonClick applyEdit.simps muteButtonClick_def
      by (rule updateElementChannel_separated [OF sep])
  next
    case (SoloButtonClick k)
    show ?thesis unfolding SoloButtonClick applyEdit.simps
      by (rule soloButtonClickElement_separated [OF sep])
  next
    case RefreshMixer
    show ?thesis unfolding RefreshMixer applyEdit.simps
      by (rule refreshMixerSession_separated [OF sep])
  next
    case (SetCurrentProfile profile)
    show ?thesis unfolding SetCurrentProfile applyEdit.simps
      by (rule setCurrentProfile_separated [OF sep])
  qed
qed

lemma applyEdits_separated:
  assumes "separated S s"
  shows "separated S (applyEdits es s)
       \<and> profiles (mgr (applyEdits es s)) = profiles (mgr s)
       \<and> unchangedOn S (heap (mgr s)) (heap (mgr (applyEdits es s)))"
  using assms
proof (induction es arbitrary: s)
  case Nil
  then show ?case by (simp add: unchangedOn_refl)
next
  case (Cons e es)
  let ?s1 = "snd (applyEdit e s)"
  from applyEdit_separated [OF Cons.prems, of e]
  have sep1: "separated S ?s1" and ps1: "profiles (mgr ?s1) = profiles (mgr s)"
    and un1: "unchangedOn S (heap (mgr s)) (heap (mgr ?s1))" by simp_all
  from Cons.IH [OF sep1]
  have sep2: "separated S (applyEdits es ?s1)"
    and ps2: "profiles (mgr (applyEdits es ?s1)) = profiles (mgr ?s1)"
    and un2: "unchangedOn S (heap (mgr ?s1)) (heap (mgr (applyEdits es ?s1)))" by simp_all
  from sep2 ps2 ps1 unchangedOn_trans [OF un1 un2] show ?case by simp
qed

subsection \<open>The methods that write to the store\<close>

text \<open>
  A new profile made of new objects joins the store: the new objects join the side of the
  store.
\<close>

lemma append_profile:
  assumes sep: "separates S h ps rs"
    and refs: "\<forall>c\<in>set cells. \<forall>x\<in>set (refsOf c). length h \<le> x \<and> x < length h + length cells"
    and p: "length h \<le> p" "p < length h + length cells"
  shows "separates (S @ [length h..<length h + length cells]) (h @ cells) (ps @ [p]) rs"
proof -
  let ?S' = "S @ [length h..<length h + length cells]"
  from separates_append(2) [OF sep refs] have sep1: "separates ?S' (h @ cells) ps rs" .
  have "set (ps @ [p]) \<subseteq> set ?S'" using separatesD(4) [OF sep] p by auto
  then show ?thesis by (rule separates_profiles [OF sep1])
qed

lemma newProfile_separates:
  assumes sep: "separates S (heap m) (profiles m) rs"
  shows "\<exists>S'. separates S' (heap (newProfile m)) (profiles (newProfile m)) rs
             \<and> currentProfile (newProfile m) = currentProfile m"
proof -
  let ?h = "heap m" and ?i = "getNextProfileID m"
  let ?cells = "[ArrayCell [], ArrayCell [],
                 ProfileCell (Some ?i) (''Profile '' @ showInt ?i) (length ?h) (length ?h + 1)]"
  have res: "newProfile m = m\<lparr>heap := ?h @ ?cells, profiles := profiles m @ [length ?h + 2]\<rparr>"
    by (simp add: newProfile_def newAudioProfile_def alloc_def addProfile_def)
  have refs: "\<forall>c\<in>set ?cells. \<forall>x\<in>set (refsOf c). length ?h \<le> x \<and> x < length ?h + length ?cells"
    by simp
  from append_profile [OF sep refs, of "length ?h + 2"]
  have "separates (S @ [length ?h..<length ?h + length ?cells]) (?h @ ?cells)
          (profiles m @ [length ?h + 2]) rs" by simp
  then show ?thesis unfolding res by (intro exI [of _ "S @ [length ?h..<length ?h + length ?cells]"]) simp
qed

lemma loadProfile_separates:
  assumes sep: "separates S (heap m) (profiles m) rs"
  shows "\<exists>S'. separates S' (heap (loadProfile today obj m)) (profiles (loadProfile today obj m)) rs
             \<and> currentProfile (loadProfile today obj m) = currentProfile m"
proof -
  let ?h = "heap m"
  define obj' where "obj' = obj\<lparr>objId := Some (getNextProfileID m),
      objLabel := (if Some (objLabel obj) \<in> set (map (profileLabel (heap m)) (profiles m))
                   then objLabel obj @ '' (loaded from file on '' @ today @ '')''
                   else objLabel obj)\<rparr>"
  obtain cells where f: "fromObj obj' ?h = (length ?h + length cells - 1, ?h @ cells)"
    and ne: "cells \<noteq> []"
    and refs: "\<forall>c\<in>set cells. \<forall>x\<in>set (refsOf c). length ?h \<le> x \<and> x < length ?h + length cells"
    by (rule fromObj_cells)
  let ?p = "length ?h + length cells - 1"
  have res: "loadProfile today obj m = m\<lparr>heap := ?h @ cells, profiles := profiles m @ [?p]\<rparr>"
    using f by (simp add: loadProfile_def Let_def obj'_def)
  have pos: "0 < length cells" using ne by simp
  have p: "length ?h \<le> ?p" "?p < length ?h + length cells" using pos by linarith+
  from append_profile [OF sep refs p]
  show ?thesis unfolding res by (intro exI [of _ "S @ [length ?h..<length ?h + length cells]"]) simp
qed

lemma loadProfiles_separates:
  assumes "separates S (heap m) (profiles m) rs"
  shows "\<exists>S'. separates S' (heap (foldl (\<lambda>m' profileObj. loadProfile today profileObj m') m objs))
                 (profiles (foldl (\<lambda>m' profileObj. loadProfile today profileObj m') m objs)) rs
             \<and> currentProfile (foldl (\<lambda>m' profileObj. loadProfile today profileObj m') m objs)
                 = currentProfile m"
  using assms
proof (induction objs arbitrary: S m)
  case Nil
  then show ?case by auto
next
  case (Cons obj objs)
  from loadProfile_separates [OF Cons.prems, of today obj]
  obtain S1 where sep1: "separates S1 (heap (loadProfile today obj m)) (profiles (loadProfile today obj m)) rs"
    and cur1: "currentProfile (loadProfile today obj m) = currentProfile m" by blast
  from Cons.IH [OF sep1] cur1 show ?case by simp
qed

lemma loadProfileFile_separates:
  assumes sep: "separates S (heap m) (profiles m) rs"
  shows "\<exists>S'. separates S' (heap (snd (loadProfileFile today obj m)))
                 (profiles (snd (loadProfileFile today obj m))) rs
             \<and> currentProfile (snd (loadProfileFile today obj m)) = currentProfile m"
proof (cases "fileType obj = Some ''audioProfile''")
  case False
  then show ?thesis using sep by (auto simp: loadProfileFile_def)
next
  case True
  then show ?thesis using loadProfiles_separates [OF sep, of today "fileProfiles obj"]
    by (simp add: loadProfileFile_def)
qed

lemma deleteProfile_separates:
  assumes sep: "separates S (heap m) (profiles m) rs"
  shows "\<exists>S'. separates S' (heap (snd (deleteProfile profile m)))
                 (profiles (snd (deleteProfile profile m))) rs
             \<and> currentProfile (snd (deleteProfile profile m)) = currentProfile m"
proof -
  define m1 where "m1 = (case indexOf (profiles m) profile of
                  Some i \<Rightarrow> m\<lparr>profiles := take i (profiles m) @ drop (Suc i) (profiles m)\<rparr>
                | None \<Rightarrow> m)"
  define m2 where "m2 = (if length (profiles m1) = 0 then newProfile m1 else m1)"
  have res: "snd (deleteProfile profile m) = m2"
    by (simp add: deleteProfile_def Let_def m1_def m2_def)
  have h1: "heap m1 = heap m" and c1: "currentProfile m1 = currentProfile m"
    by (simp_all add: m1_def split: option.splits)
  have "set (profiles m1) \<subseteq> set (profiles m)"
    by (auto simp: m1_def split: option.splits dest: in_set_takeD in_set_dropD)
  then have "set (profiles m1) \<subseteq> set S" using separatesD(4) [OF sep] by blast
  from separates_profiles [OF sep this]
  have sep1: "separates S (heap m1) (profiles m1) rs" by (simp add: h1)
  show ?thesis
  proof (cases "length (profiles m1) = 0")
    case True
    then have "m2 = newProfile m1" by (simp add: m2_def)
    then show ?thesis using newProfile_separates [OF sep1] c1 unfolding res by simp
  next
    case False
    then have "m2 = m1" by (simp add: m2_def)
    then show ?thesis using sep1 c1 unfolding res by auto
  qed
qed

lemma fromObjAll_separates:
  assumes "separates S h ps rs"
  shows "\<exists>S'. separates S' (snd (fromObjAll objs h)) (ps @ fst (fromObjAll objs h)) rs"
  using assms
proof (induction objs arbitrary: S h ps)
  case Nil
  then show ?case by auto
next
  case (Cons obj objs)
  obtain cells where f: "fromObj obj h = (length h + length cells - 1, h @ cells)"
    and ne: "cells \<noteq> []"
    and refs: "\<forall>c\<in>set cells. \<forall>x\<in>set (refsOf c). length h \<le> x \<and> x < length h + length cells"
    by (rule fromObj_cells)
  let ?p = "length h + length cells - 1"
  have pos: "0 < length cells" using ne by simp
  have p: "length h \<le> ?p" "?p < length h + length cells" using pos by linarith+
  from append_profile [OF Cons.prems refs p]
  have "\<exists>S'. separates S' (snd (fromObjAll objs (h @ cells))) ((ps @ [?p]) @ fst (fromObjAll objs (h @ cells))) rs"
    by (rule Cons.IH)
  then show ?case using f by (simp add: split_beta)
qed

lemma storageProfiles_separates:
  assumes sep: "separates S (heap m) (profiles m) rs"
  shows "\<exists>S'. separates S' (heap (storageProfiles audioProfiles m))
                 (profiles (storageProfiles audioProfiles m)) rs
             \<and> currentProfile (storageProfiles audioProfiles m) = currentProfile m"
proof -
  let ?ps = "fst (fromObjAll audioProfiles (heap m))" and ?h' = "snd (fromObjAll audioProfiles (heap m))"
  have res: "storageProfiles audioProfiles m = m\<lparr>heap := ?h', profiles := ?ps\<rparr>"
    by (simp add: storageProfiles_def split_beta)
  from fromObjAll_separates [OF sep, of audioProfiles]
  obtain S' where sep1: "separates S' ?h' (profiles m @ ?ps) rs" by blast
  have "set ?ps \<subseteq> set S'" using separatesD(4) [OF sep1] by simp
  from separates_profiles [OF sep1 this] show ?thesis unfolding res by auto
qed

lemma renameProfile_separates:
  assumes sep: "separates S (heap m) (profiles m) rs"
  shows "\<exists>S'. separates S' (heap (renameProfile i displayName m))
                 (profiles (renameProfile i displayName m)) rs
             \<and> currentProfile (renameProfile i displayName m) = currentProfile m"
proof -
  have keep: ?thesis if "renameProfile i displayName m = m"
    using that sep by auto
  show ?thesis
  proof (cases "find (\<lambda>p. profileId (heap m) p = Some i) (profiles m)")
    case None
    then show ?thesis by (intro keep) (simp add: renameProfile_def)
  next
    case (Some p)
    then have "p \<in> set (profiles m)" by (auto simp: find_Some_iff)
    then have p: "p \<in> set S" using separatesD(4) [OF sep] by blast
    show ?thesis
    proof (cases "lookup (heap m) p")
      case None
      then show ?thesis using Some by (intro keep) (simp add: renameProfile_def)
    next
      case cell: (Some c)
      show ?thesis
      proof (cases c)
        case (ProfileCell i' l ns cs)
        have res: "renameProfile i displayName m = m\<lparr>heap := (heap m)[p := ProfileCell i' displayName ns cs]\<rparr>"
          using Some cell ProfileCell by (simp add: renameProfile_def)
        have "\<forall>x\<in>set (refsOf (ProfileCell i' displayName ns cs)).
                x < length (heap m) \<and> ((p \<in> set S) = (x \<in> set S))"
        proof
          fix x assume "x \<in> set (refsOf (ProfileCell i' displayName ns cs))"
          then have x: "x \<in> set (refsOf c)" using ProfileCell by simp
          from separates_read [OF sep cell x]
          show "x < length (heap m) \<and> ((p \<in> set S) = (x \<in> set S))" by simp
        qed
        from separates_write [OF sep this] show ?thesis unfolding res by auto
      next
        case (ArrayCell x)
        then show ?thesis using Some cell by (intro keep) (simp add: renameProfile_def)
      next
        case (NodeCell x)
        then show ?thesis using Some cell by (intro keep) (simp add: renameProfile_def)
      next
        case (ChannelCell x)
        then show ?thesis using Some cell by (intro keep) (simp add: renameProfile_def)
      qed
    qed
  qed
qed

lemma fromObj_profile:
  "\<exists>ns cs. lookup (snd (fromObj obj h)) (fst (fromObj obj h))
             = Some (ProfileCell (objId obj) (objLabel obj) ns cs)"
  by (simp add: fromObj_append lookup_def nth_append)

text \<open>
  \<^verbatim>\<open>saveCurrentProfile\<close> stores a copy made for the store; the current profile stays
  a working object.
\<close>

lemma saveCurrentProfile_separates:
  assumes sep: "separates S (heap m) (profiles m) rs"
  shows "\<exists>S'. separates S' (heap (snd (saveCurrentProfile dropdownProfile m)))
                 (profiles (snd (saveCurrentProfile dropdownProfile m))) rs
             \<and> currentProfile (snd (saveCurrentProfile dropdownProfile m)) = currentProfile m"
proof -
  let ?h = "heap m"
  have keep: ?thesis if "snd (saveCurrentProfile dropdownProfile m) = m"
    using that sep by auto
  show ?thesis
  proof (cases dropdownProfile)
    case None
    then show ?thesis by (intro keep) (simp add: saveCurrentProfile_def)
  next
    case profile: (Some profile)
    show ?thesis
    proof (cases "currentProfile m")
      case None
      then show ?thesis using profile by (intro keep) (simp add: saveCurrentProfile_def)
    next
      case cur: (Some c)
      show ?thesis
      proof (cases "toObj ?h c")
        case None
        then show ?thesis using profile cur
          by (intro keep) (simp add: saveCurrentProfile_def copy_def)
      next
        case obj: (Some obj)
        obtain cells where f: "fromObj obj ?h = (length ?h + length cells - 1, ?h @ cells)"
          and ne: "cells \<noteq> []"
          and refs: "\<forall>c\<in>set cells. \<forall>x\<in>set (refsOf c). length ?h \<le> x \<and> x < length ?h + length cells"
          by (rule fromObj_cells)
        define nc where "nc = length ?h + length cells - 1"
        let ?h' = "?h @ cells"
        note f = f [folded nc_def]
        let ?S' = "S @ [length ?h..<length ?h + length cells]"
        have cp: "copy ?h c = Some (nc, ?h')" using obj f by (simp add: copy_def)
        from fromObj_profile [of obj ?h] obtain ns cs
          where nc: "lookup ?h' nc = Some (ProfileCell (objId obj) (objLabel obj) ns cs)"
          unfolding f by auto
        have fail: ?thesis if "snd (saveCurrentProfile dropdownProfile m) = m\<lparr>heap := ?h'\<rparr>"
        proof -
          from separates_append(1) [OF sep refs] show ?thesis unfolding that
            by (intro exI [of _ S]) simp
        qed
        show ?thesis
        proof (cases "lookup ?h' profile")
          case None
          then show ?thesis using profile cur cp nc
            by (intro fail) (simp add: saveCurrentProfile_def)
        next
          case cell: (Some c')
          show ?thesis
          proof (cases c')
            case (ProfileCell i' l' ns' cs')
            let ?ps' = "case indexOf (profiles m) profile of
                          Some index \<Rightarrow> (profiles m)[index := nc]
                        | None \<Rightarrow> profiles m"
            have res: "snd (saveCurrentProfile dropdownProfile m) =
                       m\<lparr>heap := ?h'[nc := ProfileCell i' l' ns cs], profiles := ?ps'\<rparr>"
              using profile cur cp nc cell ProfileCell by (simp add: saveCurrentProfile_def)
            from separates_append(2) [OF sep refs]
            have sep1: "separates ?S' ?h' (profiles m) rs" .
            have "\<forall>x\<in>set (refsOf (ProfileCell i' l' ns cs)).
                    x < length ?h' \<and> ((nc \<in> set ?S') = (x \<in> set ?S'))"
            proof
              fix x assume "x \<in> set (refsOf (ProfileCell i' l' ns cs))"
              then have x: "x \<in> set (refsOf (ProfileCell (objId obj) (objLabel obj) ns cs))" by simp
              from separates_read [OF sep1 nc x]
              show "x < length ?h' \<and> ((nc \<in> set ?S') = (x \<in> set ?S'))" by simp
            qed
            from separates_write [OF sep1 this]
            have sep2: "separates ?S' (?h'[nc := ProfileCell i' l' ns cs]) (profiles m) rs" .
            have pos: "0 < length cells" using ne by simp
            have "length ?h \<le> nc" "nc < length ?h + length cells"
              using pos unfolding nc_def by linarith+
            then have in': "nc \<in> set ?S'" by simp
            have "set ?ps' \<subseteq> insert nc (set (profiles m))"
              by (auto split: option.splits dest: subsetD [OF set_update_subset_insert])
            moreover have "set (profiles m) \<subseteq> set ?S'" using separatesD(4) [OF sep] by auto
            ultimately have "set ?ps' \<subseteq> set ?S'" using in' by blast
            from separates_profiles [OF sep2 this] show ?thesis
              unfolding res by (intro exI [of _ ?S']) simp
          next
            case (ArrayCell x)
            then show ?thesis using profile cur cp nc cell
              by (intro fail) (simp add: saveCurrentProfile_def)
          next
            case (NodeCell x)
            then show ?thesis using profile cur cp nc cell
              by (intro fail) (simp add: saveCurrentProfile_def)
          next
            case (ChannelCell x)
            then show ?thesis using profile cur cp nc cell
              by (intro fail) (simp add: saveCurrentProfile_def)
          qed
        qed
      qed
    qed
  qed
qed

subsection \<open>Every state the program reaches\<close>

lemma mgr_separated:
  assumes "\<exists>S'. separates S' (heap m') (profiles m') (roots s)
               \<and> currentProfile m' = currentProfile (mgr s)"
  shows "\<exists>S'. separated S' (s\<lparr>mgr := m'\<rparr>)"
proof -
  from assms obtain S' where sep: "separates S' (heap m') (profiles m') (roots s)"
    and cur: "currentProfile m' = currentProfile (mgr s)" by blast
  have "separated S' (s\<lparr>mgr := m'\<rparr>)"
    using sep by (simp add: separated_def roots_mgr [OF cur])
  then show ?thesis ..
qed

lemma perform_separated:
  assumes sep: "separated S s"
  shows "\<exists>S'. separated S' (perform a s)"
proof -
  from sep have sep': "separates S (heap (mgr s)) (profiles (mgr s)) (roots s)"
    by (simp add: separated_def)
  show ?thesis
  proof (cases a)
    case (Edit e)
    from applyEdit_separated [OF sep, of e] show ?thesis unfolding Edit by auto
  next
    case NewProfile
    show ?thesis unfolding NewProfile perform.simps
      by (rule mgr_separated) (rule newProfile_separates [OF sep'])
  next
    case (LoadProfileFile today obj)
    show ?thesis unfolding LoadProfileFile perform.simps
      by (rule mgr_separated) (rule loadProfileFile_separates [OF sep'])
  next
    case (DeleteProfile profile)
    show ?thesis unfolding DeleteProfile perform.simps
      by (rule mgr_separated) (rule deleteProfile_separates [OF sep'])
  next
    case (SaveCurrentProfile dropdownProfile)
    show ?thesis unfolding SaveCurrentProfile perform.simps
      by (rule mgr_separated) (rule saveCurrentProfile_separates [OF sep'])
  next
    case (StorageProfiles audioProfiles)
    show ?thesis unfolding StorageProfiles perform.simps
      by (rule mgr_separated) (rule storageProfiles_separates [OF sep'])
  next
    case (RenameProfile i displayName)
    show ?thesis unfolding RenameProfile perform.simps
      by (rule mgr_separated) (rule renameProfile_separates [OF sep'])
  qed
qed

lemma newSession_separated: "separated [] newSession"
  by (simp add: separated_def separates_def newSession_def roots_def)

lemma performAll_snoc: "performAll (as @ [a]) s = perform a (performAll as s)"
  by (simp add: performAll_def)

text \<open>
  In every state the program reaches, the stored profiles and all they refer to are
  apart from the current profile, from the profile the mixer elements were built for
  and from the channel objects of the elements.
\<close>

lemma performAll_separated: "\<exists>S. separated S (performAll as newSession)"
proof (induction as rule: rev_induct)
  case Nil
  have "performAll [] newSession = newSession" by (simp add: performAll_def)
  then show ?case using newSession_separated by auto
next
  case (snoc a as)
  then obtain S where "separated S (performAll as newSession)" by blast
  from perform_separated [OF this, of a] show ?case by (simp only: performAll_snoc)
qed

text \<open>
  Claim C9.  \<^verbatim>\<open>setCurrentProfile\<close> installs a copy of the profile that is structurally
  equal to it and is made of new objects.  In a state \<open>s\<close> that the program reaches,
  whatever events of the equalizer and the mixer follow the activation (nodes added,
  dragged, retuned, retyped or deleted; channel gain, mute and solo, which act on the
  profile the mixer elements were built for; \<^verbatim>\<open>refreshMixer\<close>; further activations),
  every stored profile keeps its id, its label, its equalizer nodes and its mixer
  channels, and the store holds the same profiles.
\<close>

theorem setCurrentProfile_detached_copy:
  assumes reach: "s = performAll history newSession"
    and act: "applyEdit (SetCurrentProfile activated) s = (None, s1)"
    and stored: "p \<in> set (profiles (mgr s))"
  shows "toObj (heap (mgr (applyEdits es s1))) p = toObj (heap (mgr s)) p
       \<and> profiles (mgr (applyEdits es s1)) = profiles (mgr s)
       \<and> (\<exists>c. currentProfile (mgr s1) = Some c \<and> length (heap (mgr s)) \<le> c
                \<and> toObj (heap (mgr s1)) c = toObj (heap (mgr s)) activated)"
proof -
  from performAll_separated [of history] obtain S where sep: "separated S s"
    unfolding reach by blast
  then have sep': "separates S (heap (mgr s)) (profiles (mgr s)) (roots s)"
    by (simp add: separated_def)
  have s1: "s1 = snd (applyEdit (SetCurrentProfile activated) s)" by (simp only: act snd_conv)
  from applyEdit_separated [OF sep, of "SetCurrentProfile activated"]
  have sep1: "separated S s1" and ps1: "profiles (mgr s1) = profiles (mgr s)"
    and un1: "unchangedOn S (heap (mgr s)) (heap (mgr s1))" unfolding s1 by simp_all
  from applyEdits_separated [OF sep1, of es]
  have ps2: "profiles (mgr (applyEdits es s1)) = profiles (mgr s1)"
    and un2: "unchangedOn S (heap (mgr s1)) (heap (mgr (applyEdits es s1)))" by simp_all
  have "p \<in> set S" using stored separatesD(4) [OF sep'] by blast
  from toObj_unchanged [OF sep' unchangedOn_trans [OF un1 un2] this]
  have frame: "toObj (heap (mgr (applyEdits es s1))) p = toObj (heap (mgr s)) p" .
  from act obtain obj where obj: "toObj (heap (mgr s)) activated = Some obj"
    by (auto simp: onManager_def setCurrentProfile_def copy_def split: option.splits)
  let ?c = "fst (fromObj obj (heap (mgr s)))" and ?h' = "snd (fromObj obj (heap (mgr s)))"
  have m1: "mgr s1 = (mgr s)\<lparr>heap := ?h', currentProfile := Some ?c\<rparr>"
    using act obj by (auto simp: onManager_def setCurrentProfile_def copy_def split_beta)
  have "length (heap (mgr s)) \<le> ?c" by (simp add: fromObj_append)
  moreover have "toObj (heap (mgr s1)) ?c = toObj (heap (mgr s)) activated"
    by (simp add: m1 toObj_fromObj obj)
  moreover have "currentProfile (mgr s1) = Some ?c" by (simp add: m1)
  ultimately show ?thesis using frame ps1 ps2 by simp
qed

text \<open>
  The program starts with a new profile, activates it and builds the mixer: the stored
  profile is at reference 2, its copy at 5, and the seven mixer elements are bound to the
  channel objects 6 to 12 of that copy.  The Load button then activates the stored
  profile again, which makes the copy at 15 current and leaves the mixer elements as
  they are.  A click on the mute button of the first element and a click on the zero
  line follow.  The stored profile reads as before; the mute has gone to channel 6 of
  the copy of before, and the node to the current profile.
\<close>

theorem setCurrentProfile_detached_copy_witness:
  "fst (applyEdit (SetCurrentProfile 2)
         (performAll [NewProfile, Edit (SetCurrentProfile 2), Edit RefreshMixer] newSession)) = None
   \<and> profiles (mgr (performAll [NewProfile, Edit (SetCurrentProfile 2), Edit RefreshMixer] newSession)) = [2]
   \<and> toObj (heap (mgr (applyEdits [MuteButtonClick 0, ZeroLineNodeClick ''peaking'' 1000]
        (snd (applyEdit (SetCurrentProfile 2)
           (performAll [NewProfile, Edit (SetCurrentProfile 2), Edit RefreshMixer] newSession)))))) 2
     = Some \<lparr>objId = Some 1, objLabel = ''Profile 1'', objEqualizerNodes = [], objMixerChannels = []\<rparr>
   \<and> channelAt (heap (mgr (applyEdits [MuteButtonClick 0, ZeroLineNodeClick ''peaking'' 1000]
        (snd (applyEdit (SetCurrentProfile 2)
           (performAll [NewProfile, Edit (SetCurrentProfile 2), Edit RefreshMixer] newSession)))))) 6
     = Some \<lparr>channelId = 0, gain = 1, muted = True, solo = False\<rparr>
   \<and> toObj (heap (mgr (applyEdits [MuteButtonClick 0, ZeroLineNodeClick ''peaking'' 1000]
        (snd (applyEdit (SetCurrentProfile 2)
           (performAll [NewProfile, Edit (SetCurrentProfile 2), Edit RefreshMixer] newSession)))))) 15
     = Some \<lparr>objId = Some 1, objLabel = ''Profile 1'',
             objEqualizerNodes = [\<lparr>nodeType = ''peaking'', frequency = 1000, nodeGain = 0, q = 1\<rparr>],
             objMixerChannels = []\<rparr>"
proof -
  let ?s = "performAll [NewProfile, Edit (SetCurrentProfile 2), Edit RefreshMixer] newSession"
  let ?s1 = "snd (applyEdit (SetCurrentProfile 2) ?s)"
  let ?es = "[MuteButtonClick 0, ZeroLineNodeClick ''peaking'' 1000]"
  have ok: "fst (applyEdit (SetCurrentProfile 2) ?s) = None" by code_simp
  then have act: "applyEdit (SetCurrentProfile 2) ?s = (None, ?s1)" by (simp add: prod_eq_iff)
  have ps: "profiles (mgr ?s) = [2]" by code_simp
  then have stored: "2 \<in> set (profiles (mgr ?s))" by simp
  have before: "toObj (heap (mgr ?s)) 2
     = Some \<lparr>objId = Some 1, objLabel = ''Profile 1'', objEqualizerNodes = [], objMixerChannels = []\<rparr>"
    by code_simp
  from setCurrentProfile_detached_copy [OF refl act stored, of ?es]
  have "toObj (heap (mgr (applyEdits ?es ?s1))) 2 = toObj (heap (mgr ?s)) 2" by (rule conjunct1)
  then have kept: "toObj (heap (mgr (applyEdits ?es ?s1))) 2
     = Some \<lparr>objId = Some 1, objLabel = ''Profile 1'', objEqualizerNodes = [], objMixerChannels = []\<rparr>"
    by (simp only: before)
  have stale: "channelAt (heap (mgr (applyEdits ?es ?s1))) 6
     = Some \<lparr>channelId = 0, gain = 1, muted = True, solo = False\<rparr>"
    by code_simp
  have current: "toObj (heap (mgr (applyEdits ?es ?s1))) 15
     = Some \<lparr>objId = Some 1, objLabel = ''Profile 1'',
             objEqualizerNodes = [\<lparr>nodeType = ''peaking'', frequency = 1000, nodeGain = 0, q = 1\<rparr>],
             objMixerChannels = []\<rparr>"
    by code_simp
  from ok ps kept stale current show ?thesis by (intro conjI)
qed

text \<open>
  The explicit save is what brings the edits into the store: the stored profile is
  replaced by a copy of the current profile that carries its id and its label.
\<close>

lemma saveCurrentProfile_commits:
  assumes cur: "currentProfile m = Some c" and v: "toObj (heap m) c = Some v"
    and sel: "lookup (heap m) p = Some (ProfileCell pid plabel pns pcs)"
    and idx: "indexOf (profiles m) p = Some index"
  shows "\<exists>new. saveCurrentProfile (Some p) m =
           (None, m\<lparr>heap := snd (fromObj (v\<lparr>objId := pid, objLabel := plabel\<rparr>) (heap m)),
                     profiles := (profiles m)[index := new]\<rparr>)
         \<and> length (heap m) \<le> new
         \<and> toObj (snd (fromObj (v\<lparr>objId := pid, objLabel := plabel\<rparr>) (heap m))) new
             = Some (v\<lparr>objId := pid, objLabel := plabel\<rparr>)"
proof -
  let ?h = "heap m"
  let ?N = "objEqualizerNodes v" and ?C = "objMixerChannels v"
  let ?n = "length ?h + length ?N"
  let ?cs = "?n + 1 + length ?C"
  let ?new = "?cs + 1"
  let ?body = "?h @ map NodeCell ?N @ [ArrayCell [length ?h..<?n]] @ map ChannelCell ?C
               @ [ArrayCell [?n + 1..<?cs]]"
  let ?v' = "v\<lparr>objId := pid, objLabel := plabel\<rparr>"
  have f: "fromObj v ?h = (?new, ?body @ [ProfileCell (objId v) (objLabel v) ?n ?cs])"
    by (simp add: fromObj_append)
  have f': "fromObj ?v' ?h = (?new, ?body @ [ProfileCell pid plabel ?n ?cs])"
    by (simp add: fromObj_append)
  have len: "length ?body = ?new" by simp
  have cp: "copy ?h c = Some (?new, ?body @ [ProfileCell (objId v) (objLabel v) ?n ?cs])"
    using v f by (simp add: copy_def)
  have l1: "lookup (?body @ [ProfileCell (objId v) (objLabel v) ?n ?cs]) ?new
              = Some (ProfileCell (objId v) (objLabel v) ?n ?cs)"
    using len by (simp add: lookup_def nth_append)
  have "take (length ?h) (?body @ [ProfileCell (objId v) (objLabel v) ?n ?cs]) = ?h" by simp
  from lookup_prefix [OF this sel]
  have l2: "lookup (?body @ [ProfileCell (objId v) (objLabel v) ?n ?cs]) p
              = Some (ProfileCell pid plabel pns pcs)" .
  have upd: "(?body @ [ProfileCell (objId v) (objLabel v) ?n ?cs])[?new := ProfileCell pid plabel ?n ?cs]
               = ?body @ [ProfileCell pid plabel ?n ?cs]"
    using len by (simp add: list_update_append)
  have "saveCurrentProfile (Some p) m =
           (None, m\<lparr>heap := snd (fromObj ?v' ?h), profiles := (profiles m)[index := ?new]\<rparr>)"
    unfolding saveCurrentProfile_def
    by (simp only: option.case cur cp prod.case l1 l2 cell.case upd idx f' snd_conv)
  moreover have "length ?h \<le> ?new" by simp
  moreover have "toObj (snd (fromObj ?v' ?h)) ?new = Some ?v'"
    using toObj_fromObj [of ?v' ?h] by (simp only: f' fst_conv snd_conv)
  ultimately show ?thesis by blast
qed

end
